theory Spec2Isabelle
  imports Complex_Main "HOL-Library.Word" "HOL-Library.Sublist"
begin

unbundle bit_operations_syntax

section \<open>JavaScript values and the Node.js builtins used by the LAN client\<close>

text \<open>
  The LAN client (\<^verbatim>\<open>clients/LANv2.js\<close>) is JavaScript on Node.js. Buffers are byte
  lists, exceptions are values of \<open>error\<close>, and a call that may throw returns
  \<open>error + 'a\<close> with \<open>Inl\<close> for the exception.
\<close>

type_synonym byte = "8 word"

datatype error = TypeError | RangeError | Error string

text \<open>
  The JavaScript values the client passes around. \<open>Num\<close> is a Number that is an integer,
  \<open>Fraction\<close> any other Number (a fraction, NaN or an infinity): the code only asks
  \<^verbatim>\<open>Number.isInteger\<close> of a Number before comparing it.
\<close>

datatype jsval =
    Undefined
  | Null
  | Num int
  | Fraction
  | Str string
  | Buf "byte list"
  | Arr "jsval list"

fun is_Buffer :: "jsval \<Rightarrow> bool" where
  "is_Buffer (Buf bs) = True"
| "is_Buffer v = False"

fun bytes_of :: "jsval \<Rightarrow> byte list" where
  "bytes_of (Buf bs) = bs"
| "bytes_of v = []"

fun Number_isInteger :: "jsval \<Rightarrow> bool" where
  "Number_isInteger (Num n) = True"
| "Number_isInteger v = False"

text \<open>The integer a Number is; the code compares a value only after the test above.\<close>

fun integer_of :: "jsval \<Rightarrow> int" where
  "integer_of (Num n) = n"
| "integer_of v = 0"

text \<open>\<^verbatim>\<open>Buffer.alloc(size)\<close>: a zero-filled Buffer.\<close>

definition Buffer_alloc :: "nat \<Rightarrow> byte list" where
  "Buffer_alloc n = replicate n 0"

text \<open>\<^verbatim>\<open>Buffer.from(array)\<close>: one byte per element, each taken modulo 256.\<close>

definition Buffer_from :: "nat list \<Rightarrow> byte list" where
  "Buffer_from array = map of_nat array"

text \<open>
  \<^verbatim>\<open>Buffer.concat(list[, totalLength])\<close>, applied to the arguments of the call in
  order. Node.js first checks that \<open>list\<close> is an Array and throws a TypeError when it is
  not (a Buffer is not an Array); it throws the same error for an element that is not a
  Buffer. Without a \<open>totalLength\<close> the result is the concatenation; with one the result
  is cut or zero-padded to that length. Arguments after the second are ignored.
\<close>

definition resize :: "nat \<Rightarrow> byte list \<Rightarrow> byte list" where
  "resize n bs = take n (bs @ replicate n 0)"

fun Buffer_concat :: "jsval list \<Rightarrow> error + byte list" where
  "Buffer_concat (Arr list # rest) =
     (if list_all is_Buffer list
      then (case rest of
              Num n # more \<Rightarrow>
                (if 0 \<le> n then Inr (resize (nat n) (concat (map bytes_of list)))
                 else Inl RangeError)
            | Fraction # more \<Rightarrow> Inl RangeError
            | Null # more \<Rightarrow> Inl TypeError
            | Str s # more \<Rightarrow> Inl TypeError
            | Buf b # more \<Rightarrow> Inl TypeError
            | Arr a # more \<Rightarrow> Inl TypeError
            | other \<Rightarrow> Inr (concat (map bytes_of list)))
      else Inl TypeError)"
| "Buffer_concat args = Inl TypeError"

text \<open>
  \<^verbatim>\<open>buf.fill(value, offset, end)\<close> with a Buffer as value: a RangeError when \<open>end\<close> is
  past the buffer; nothing is written when \<open>end\<close> is not after \<open>offset\<close> or \<open>value\<close> is
  empty; otherwise the bytes of \<open>value\<close>, repeated, replace the bytes in \<open>[offset, end)\<close>.
\<close>

definition Buffer_fill :: "byte list \<Rightarrow> byte list \<Rightarrow> nat \<Rightarrow> nat \<Rightarrow> error + byte list" where
  "Buffer_fill buf val offset ending =
     (if length buf < ending then Inl RangeError
      else if ending \<le> offset \<or> val = [] then Inr buf
      else Inr (take offset buf
                @ take (ending - offset) (concat (replicate (ending - offset) val))
                @ drop ending buf))"

text \<open>
  \<^verbatim>\<open>Object.freeze(value)\<close>: a typed-array view that has elements cannot be frozen
  (\<^verbatim>\<open>TypeError: Cannot freeze array buffer views with elements\<close>); a Buffer is such a view.
  Every other value is returned.
\<close>

fun Object_freeze :: "jsval \<Rightarrow> error + jsval" where
  "Object_freeze (Buf bs) = (if bs = [] then Inr (Buf bs) else Inl TypeError)"
| "Object_freeze v = Inr v"

section \<open>The process state and its environment\<close>

text \<open>
  Sockets and EventEmitters are numbered in the order of their creation; a listener is a
  triple of the emitter, the event and what the listener does.
\<close>

type_synonym emitter = nat

datatype event = Close | Error_event | Message | Listening

datatype handler =
    Log_warn
  | Log_info
  | Emit_closed emitter
  | Emit_error emitter
  | Emit_message emitter
  | Set_broadcast
  | Consume nat

text \<open>The arguments of one call of the transport: the socket, the frame, the port.\<close>

type_synonym send_args = "emitter \<times> byte list \<times> nat option"

text \<open>
  The closure state of lodash's throttled function (the variables of its \<^verbatim>\<open>debounce\<close>).
  \<open>last_result\<close> is the promise the last invocation of \<^verbatim>\<open>sendPromise\<close> returned, named
  by the position of its transmission in \<open>wire\<close>; \<open>timerId\<close> is the time at which the
  pending timer is due.
\<close>

record throttle_state =
  lastArgs :: "send_args option"
  last_result :: "nat option"
  timerId :: "nat option"
  lastCallTime :: "nat option"
  lastInvokeTime :: nat

text \<open>
  The state of the process: the clock in ms, the counter \<^verbatim>\<open>nextByte.value\<close>, the number
  of \<^verbatim>\<open>Math.random()\<close> calls so far, the closure state of the throttled \<open>send\<close>, the
  calls of \<^verbatim>\<open>socket.send\<close> so far with the time of each (oldest first), the number of
  emitters created, the listeners attached, the calls of \<^verbatim>\<open>socket.bind\<close>, the calls of
  \<^verbatim>\<open>setTimeout(cleanup, timeout)\<close> (the exchange and its delay), the number of exchanges
  started, and the exceptions nothing caught.
\<close>

record world =
  clock :: nat
  nextByte_value :: nat
  random_calls :: nat
  throttled :: throttle_state
  wire :: "(nat \<times> send_args) list"
  emitters :: nat
  listeners :: "(emitter \<times> event \<times> handler) list"
  binds :: "(emitter \<times> nat) list"
  timeouts :: "(nat \<times> nat) list"
  exchanges :: nat
  uncaught :: "error list"

text \<open>
  What the program does not decide: the values of \<^verbatim>\<open>Math.random()\<close>, the outcome of
  \<^verbatim>\<open>socket.bind\<close>, whether and with which error the callback of the n-th
  \<^verbatim>\<open>socket.send\<close> is called, and the datagrams that reach the k-th exchange's
  listener while it is attached.

  A socket of \<^verbatim>\<open>dgram\<close> registers the callback of \<open>bind\<close> as a listener of
  \<^verbatim>\<open>'listening'\<close>: when the bind succeeds the callback runs in a later turn of the
  event loop, with no argument; when it fails the socket emits \<^verbatim>\<open>'error'\<close> and
  the callback never runs. \<open>dgram_bind\<close> is the error, if any, with which the bind of
  such a socket fails. A socket passed in by the caller is any object with a \<open>bind\<close>
  method: it may throw, emit \<^verbatim>\<open>'error'\<close> and never call back, or call back with an
  error or with none, before \<open>bind\<close> returns or in a later turn.
\<close>

datatype callback = Never | Called "error option"

datatype binding =
    Bind_throws error
  | Emits_error error
  | Callback_now "error option"
  | Callback_later "error option"

record env =
  Math_random :: "nat \<Rightarrow> rat"
  dgram_bind :: "emitter \<Rightarrow> nat \<Rightarrow> error option"
  socket_bind :: "emitter \<Rightarrow> nat \<Rightarrow> binding"
  send_callback :: "nat \<Rightarrow> callback"
  received :: "nat \<Rightarrow> byte list list"

datatype 'a promise = Fulfilled 'a | Rejected error | Pending

text \<open>The state of a process that has loaded the module at time \<open>t\<close>.\<close>

definition boot :: "nat \<Rightarrow> world" where
  "boot t =
     \<lparr>clock = t, nextByte_value = 0, random_calls = 0,
      throttled = \<lparr>lastArgs = None, last_result = None, timerId = None,
                   lastCallTime = None, lastInvokeTime = 0\<rparr>,
      wire = [], emitters = 0, listeners = [], binds = [], timeouts = [],
      exchanges = 0, uncaught = []\<rparr>"

definition new_emitter :: "world \<Rightarrow> emitter \<times> world" where
  "new_emitter w = (emitters w, w\<lparr>emitters := Suc (emitters w)\<rparr>)"

definition emitter_on :: "emitter \<Rightarrow> event \<Rightarrow> handler \<Rightarrow> world \<Rightarrow> world" where
  "emitter_on e ev h w = w\<lparr>listeners := listeners w @ [(e, ev, h)]\<rparr>"

definition removeListener :: "emitter \<Rightarrow> event \<Rightarrow> handler \<Rightarrow> world \<Rightarrow> world" where
  "removeListener e ev h w = w\<lparr>listeners := rev (remove1 (e, ev, h) (rev (listeners w)))\<rparr>"

section \<open>Nonce and sequence byte\<close>

text \<open>
  \<^verbatim>\<open>const nonceByte = (r = Math.random()) => Math.floor(r * 0x100);\<close>
  \<^verbatim>\<open>const nonceBytes = (length = 4) => Array.from({ length }, nonceByte);\<close>
  \<open>Array.from\<close> calls \<open>nonceByte\<close> with an undefined first argument, so each byte draws a
  fresh random number.
\<close>

definition nonceByte :: "rat \<Rightarrow> nat" where
  "nonceByte r = nat \<lfloor>r * 256\<rfloor>"

fun nonceBytes :: "env \<Rightarrow> nat \<Rightarrow> world \<Rightarrow> nat list \<times> world" where
  "nonceBytes env 0 w = ([], w)"
| "nonceBytes env (Suc n) w =
     (let b = nonceByte (Math_random env (random_calls w));
          (bs, w') = nonceBytes env n (w\<lparr>random_calls := Suc (random_calls w)\<rparr>)
      in (b # bs, w'))"

text \<open>
  \<^verbatim>\<open>const nextByteValue = number => (number + 1) % 0x100;\<close>
  \<^verbatim>\<open>const nextByte = () => nextByte.value = nextByteValue(nextByte.value);\<close>
  \<^verbatim>\<open>Object.assign(nextByte, { value: 0 });\<close>
  The counter is a property of the function object: one per process.
\<close>

definition nextByteValue :: "nat \<Rightarrow> nat" where
  "nextByteValue number = (number + 1) mod 0x100"

definition nextByte :: "world \<Rightarrow> nat \<times> world" where
  "nextByte w =
     (let v = nextByteValue (nextByte_value w) in (v, w\<lparr>nextByte_value := v\<rparr>))"

section \<open>The message encoder\<close>

record client =
  nonce :: "byte list"
  socket :: emitter
  events :: emitter

text \<open>
  The statements of \<^verbatim>\<open>createMessage\<close> after the concatenation (lines 46 to 53), on the
  Buffer \<open>message\<close> it returned:
  \<^verbatim>\<open>
  if (message.length > 65535) throw new Error('over 4KB limit');
  message[0] = (message.length & 0xFF00) >> 8;
  message[1] = (message.length & 0x00FF) >> 0;
  message[2] = 0b00010100; // see above (OOTAPPPP)
  message.fill(client.nonce, 4, 8); // see Frame
  message[23] = nextByte(); // sequence Number
  return message;
  \<close>
  A write past the end of a Buffer is ignored, as \<open>xs[i := v]\<close> is.
\<close>

definition createMessage_stamp ::
  "client \<Rightarrow> byte list \<Rightarrow> world \<Rightarrow> (error + byte list) \<times> world" where
  "createMessage_stamp this message w =
     (if 65535 < length message then (Inl (Error ''over 4KB limit''), w)
      else
        let message = message[0 := of_nat (drop_bit 8 (length message AND 0xFF00))];
            message = message[1 := of_nat (drop_bit 0 (length message AND 0x00FF))];
            message = message[2 := 0x14]
        in case Buffer_fill message (nonce this) 4 8 of
             Inl e \<Rightarrow> (Inl e, w)
           | Inr message \<Rightarrow>
               (let (b, w') = nextByte w in (Inr (message[23 := of_nat b]), w')))"

text \<open>
  The first statements of \<^verbatim>\<open>createMessage\<close> (lines 18 to 45):
  \<^verbatim>\<open>
  const frame = Buffer.alloc(8);
  const address = Buffer.alloc(16); // all zero?
  const header = Buffer.alloc(12);
  const message = Buffer.concat(frame, address, header, payload);
  \<close>
  \<open>createMessage_segments\<close> is the argument list of that call: the three zero-filled
  segments and the payload, each an argument of its own.
\<close>

definition createMessage_segments :: "jsval \<Rightarrow> jsval list" where
  "createMessage_segments payload =
     [Buf (Buffer_alloc 8), Buf (Buffer_alloc 16), Buf (Buffer_alloc 12), payload]"

definition createMessage :: "client \<Rightarrow> jsval \<Rightarrow> world \<Rightarrow> (error + byte list) \<times> world" where
  "createMessage this payload w =
     (case Buffer_concat (createMessage_segments payload) of
        Inl e \<Rightarrow> (Inl e, w)
      | Inr message \<Rightarrow> createMessage_stamp this message w)"

section \<open>The rate-limited transport\<close>

text \<open>
  \<^verbatim>\<open>const sendPromise = (socket, ...args) => new Promise((resolve, reject) => {\<close>
  \<^verbatim>\<open>  socket.send(...args, sendError => sendError ? reject(sendError) : resolve());\<close>
  \<^verbatim>\<open>});\<close>
  One call of \<open>socket.send\<close>, recorded on \<open>wire\<close> with the time of the call; the promise
  is named by the position of the transmission, and the environment settles it.
\<close>

definition sendPromise :: "send_args \<Rightarrow> world \<Rightarrow> nat \<times> world" where
  "sendPromise args w = (length (wire w), w\<lparr>wire := wire w @ [(clock w, args)]\<rparr>)"

text \<open>
  \<^verbatim>\<open>const send = _.throttle(sendPromise, 50); // limit messages to 20/second\<close>
  lodash is a dependency of the repository. Its \<open>throttle(func, wait)\<close> is
  \<open>debounce(func, wait, {leading: true, maxWait: wait, trailing: true})\<close>; the functions
  below are the inner functions of lodash 4's \<open>debounce\<close> with these options, on the
  closure state \<open>throttled\<close>. \<open>setTimeout\<close> never waits less than 1 ms, which is also
  what it does with the NaN that \<open>remainingWait\<close> computes before any call.
\<close>

definition throttle_wait :: nat where
  "throttle_wait = 50"

text \<open>
  \<^verbatim>\<open>
  function shouldInvoke(time) {
    var timeSinceLastCall = time - lastCallTime,
        timeSinceLastInvoke = time - lastInvokeTime;
    return (lastCallTime === undefined || (timeSinceLastCall >= wait) ||
      (timeSinceLastCall < 0) || (maxing && timeSinceLastInvoke >= maxWait));
  }
  function remainingWait(time) {
    var timeSinceLastCall = time - lastCallTime,
        timeSinceLastInvoke = time - lastInvokeTime,
        timeWaiting = wait - timeSinceLastCall;
    return maxing ? nativeMin(timeWaiting, maxWait - timeSinceLastInvoke) : timeWaiting;
  }
  \<close>
\<close>

definition setTimeout_due :: "nat \<Rightarrow> int \<Rightarrow> nat" where
  "setTimeout_due now delay = now + nat (max 1 delay)"

definition shouldInvoke :: "throttle_state \<Rightarrow> nat \<Rightarrow> bool" where
  "shouldInvoke s time =
     (case lastCallTime s of
        None \<Rightarrow> True
      | Some called \<Rightarrow>
          int throttle_wait \<le> int time - int called \<or> int time - int called < 0 \<or>
          int throttle_wait \<le> int time - int (lastInvokeTime s))"

definition remainingWait :: "throttle_state \<Rightarrow> nat \<Rightarrow> int" where
  "remainingWait s time =
     (case lastCallTime s of
        None \<Rightarrow> 0
      | Some called \<Rightarrow>
          min (int throttle_wait - (int time - int called))
              (int throttle_wait - (int time - int (lastInvokeTime s))))"

text \<open>
  \<^verbatim>\<open>
  function invokeFunc(time) {
    var args = lastArgs, thisArg = lastThis;
    lastArgs = lastThis = undefined;
    lastInvokeTime = time;
    result = func.apply(thisArg, args);
    return result;
  }
  function leadingEdge(time) {
    lastInvokeTime = time;
    timerId = setTimeout(timerExpired, wait);
    return leading ? invokeFunc(time) : result;
  }
  function trailingEdge(time) {
    timerId = undefined;
    if (trailing && lastArgs) { return invokeFunc(time); }
    lastArgs = lastThis = undefined;
    return result;
  }
  function timerExpired() {
    var time = now();
    if (shouldInvoke(time)) { return trailingEdge(time); }
    timerId = setTimeout(timerExpired, remainingWait(time));
  }
  \<close>
  \<open>invokeFunc\<close> is only reached with \<open>lastArgs\<close> set.
\<close>

definition invokeFunc :: "nat \<Rightarrow> world \<Rightarrow> world" where
  "invokeFunc time w =
     (case lastArgs (throttled w) of
        None \<Rightarrow> w
      | Some args \<Rightarrow>
          (let w1 = w\<lparr>throttled := (throttled w)\<lparr>lastArgs := None, lastInvokeTime := time\<rparr>\<rparr>;
               (p, w2) = sendPromise args w1
           in w2\<lparr>throttled := (throttled w2)\<lparr>last_result := Some p\<rparr>\<rparr>))"

definition leadingEdge :: "nat \<Rightarrow> world \<Rightarrow> world" where
  "leadingEdge time w =
     invokeFunc time
       (w\<lparr>throttled := (throttled w)
            \<lparr>lastInvokeTime := time,
             timerId := Some (setTimeout_due (clock w) (int throttle_wait))\<rparr>\<rparr>)"

definition trailingEdge :: "nat \<Rightarrow> world \<Rightarrow> world" where
  "trailingEdge time w =
     (let w1 = w\<lparr>throttled := (throttled w)\<lparr>timerId := None\<rparr>\<rparr>
      in if lastArgs (throttled w1) \<noteq> None then invokeFunc time w1
         else w1\<lparr>throttled := (throttled w1)\<lparr>lastArgs := None\<rparr>\<rparr>)"

definition timerExpired :: "world \<Rightarrow> world" where
  "timerExpired w =
     (let time = clock w in
      if shouldInvoke (throttled w) time then trailingEdge time w
      else w\<lparr>throttled := (throttled w)
               \<lparr>timerId := Some (setTimeout_due time (remainingWait (throttled w) time))\<rparr>\<rparr>)"

text \<open>
  A call of the throttled function \<open>send\<close>:
  \<^verbatim>\<open>
  function debounced() {
    var time = now(), isInvoking = shouldInvoke(time);
    lastArgs = arguments; lastThis = this; lastCallTime = time;
    if (isInvoking) {
      if (timerId === undefined) { return leadingEdge(lastCallTime); }
      if (maxing) {
        clearTimeout(timerId);
        timerId = setTimeout(timerExpired, wait);
        return invokeFunc(lastCallTime);
      }
    }
    if (timerId === undefined) { timerId = setTimeout(timerExpired, wait); }
    return result;
  }
  \<close>
  It returns the result of the last invocation of \<open>sendPromise\<close>, which is not the
  promise of this call's own transmission unless this call was invoked on the spot.
\<close>

definition send :: "send_args \<Rightarrow> world \<Rightarrow> nat option \<times> world" where
  "send args w =
     (let time = clock w;
          isInvoking = shouldInvoke (throttled w) time;
          w1 = w\<lparr>throttled := (throttled w)\<lparr>lastArgs := Some args, lastCallTime := Some time\<rparr>\<rparr>;
          w2 = (if isInvoking
                then (if timerId (throttled w1) = None then leadingEdge time w1
                      else invokeFunc time
                             (w1\<lparr>throttled := (throttled w1)
                                  \<lparr>timerId := Some (setTimeout_due time (int throttle_wait))\<rparr>\<rparr>))
                else (if timerId (throttled w1) = None
                      then w1\<lparr>throttled := (throttled w1)
                                \<lparr>timerId := Some (setTimeout_due time (int throttle_wait))\<rparr>\<rparr>
                      else w1))
      in (last_result (throttled w2), w2))"

text \<open>
  What the event loop does to the transport: a call of \<open>send\<close> at a time, or a turn of
  the loop at a time, on which the pending timer fires if it is due (a timer never fires
  early, it may fire late). A script is a list of such events.
\<close>

datatype loop_event = Call send_args | Tick

fun step :: "nat \<times> loop_event \<Rightarrow> world \<Rightarrow> world" where
  "step (t, Call args) w = snd (send args (w\<lparr>clock := t\<rparr>))"
| "step (t, Tick) w =
     (let w1 = w\<lparr>clock := t\<rparr> in
      case timerId (throttled w1) of
        None \<Rightarrow> w1
      | Some due \<Rightarrow> if due \<le> t then timerExpired w1 else w1)"

definition run :: "(nat \<times> loop_event) list \<Rightarrow> world \<Rightarrow> world" where
  "run script w = fold step script w"

definition transmitted :: "world \<Rightarrow> send_args list" where
  "transmitted w = map snd (wire w)"

section \<open>The client\<close>

text \<open>
  The constructor (lines 66 to 90), given its \<open>events\<close> and \<open>socket\<close> arguments (the
  client's own test says it must be passed a socket); logging is left out. It registers
  two listeners on the events emitter and three on the socket, then builds the nonce:
  \<^verbatim>\<open>
  const nonce = Object.freeze(Buffer.from(nonceBytes(4)));
  Object.defineProperty(this, 'nonce', { value: nonce });
  \<close>
  An exception of \<open>Object.freeze\<close> leaves the constructor.
\<close>

record constructor_args =
  arg_events :: "emitter option"
  arg_socket :: emitter

definition Client_constructor ::
  "env \<Rightarrow> constructor_args \<Rightarrow> world \<Rightarrow> (error + client) \<times> world" where
  "Client_constructor env args w =
     (let (eventsEmitter, w) =
            (case arg_events args of Some e \<Rightarrow> (e, w) | None \<Rightarrow> new_emitter w);
          w = emitter_on eventsEmitter Error_event Log_warn w;
          w = emitter_on eventsEmitter Message Log_info w;
          w = emitter_on (arg_socket args) Close (Emit_closed eventsEmitter) w;
          w = emitter_on (arg_socket args) Error_event (Emit_error eventsEmitter) w;
          w = emitter_on (arg_socket args) Message (Emit_message eventsEmitter) w;
          (array, w) = nonceBytes env 4 w
      in case Object_freeze (Buf (Buffer_from array)) of
           Inl e \<Rightarrow> (Inl e, w)
         | Inr frozen \<Rightarrow>
             (Inr \<lparr>nonce = bytes_of frozen, socket = arg_socket args,
                   events = eventsEmitter\<rparr>, w))"

text \<open>
  \<^verbatim>\<open>static createBroadcastSocket\<close>: a new socket that switches broadcast on once it
  listens.
\<close>

definition createBroadcastSocket :: "world \<Rightarrow> emitter \<times> world" where
  "createBroadcastSocket w =
     (let (s, w1) = new_emitter w in (s, emitter_on s Listening Set_broadcast w1))"

text \<open>
  \<^verbatim>\<open>
  static create (...args) {
    const getSocket = () => Client.createBroadcastSocket(); // default factory
    const { port = 56700, socket = getSocket() } = Object.assign({}, ...args);
    return new Promise((resolve, reject) => {
      if (!Number.isInteger(port) || port < 0 || port > 65535) {
        throw new TypeError('port must be a valid 16-bit integer');
      }
      socket.bind(port, (bindError) => {
        if (bindError) reject(bindError);
        else resolve(new Client({ socket }));
      });
    });
  }
  \<close>
  on the merged options. A \<open>port\<close> that is undefined is 56700 and a \<open>socket\<close> that is
  undefined is a new broadcast socket of \<^verbatim>\<open>dgram\<close>, both before the promise is made.
  A throw in the executor rejects the promise: that of the port check, that of \<open>bind\<close>
  itself, and that of a callback which \<open>bind\<close> runs before it returns. A throw in a
  callback that runs in a later turn is an uncaught exception and leaves the promise
  pending. When the callback never runs nothing settles the promise.
\<close>

record create_options =
  opt_port :: jsval
  opt_socket :: "emitter option"

text \<open>What \<open>bind\<close> does on the socket created or passed in.\<close>

definition bind_of :: "env \<Rightarrow> create_options \<Rightarrow> emitter \<Rightarrow> nat \<Rightarrow> binding" where
  "bind_of env options sock p =
     (case opt_socket options of
        None \<Rightarrow> (case dgram_bind env sock p of
                  None \<Rightarrow> Callback_later None
                | Some e \<Rightarrow> Emits_error e)
      | Some s \<Rightarrow> socket_bind env sock p)"

text \<open>
  \<^verbatim>\<open>emitter.emit('error', e)\<close>: with no listener of \<^verbatim>\<open>'error'\<close> the emitter
  throws \<open>e\<close>, here from the event loop, where nothing catches it.
\<close>

definition emit_error :: "emitter \<Rightarrow> error \<Rightarrow> world \<Rightarrow> world" where
  "emit_error em e w =
     (if list_ex (\<lambda>(em', ev, h). em' = em \<and> ev = Error_event) (listeners w) then w
      else w\<lparr>uncaught := uncaught w @ [e]\<rparr>)"

definition create :: "env \<Rightarrow> create_options \<Rightarrow> world \<Rightarrow> client promise \<times> world" where
  "create env options w =
     (let port = (if opt_port options = Undefined then Num 56700 else opt_port options);
          (sock, w1) = (case opt_socket options of
                          Some s \<Rightarrow> (s, w)
                        | None \<Rightarrow> createBroadcastSocket w)
      in if \<not> Number_isInteger port \<or> integer_of port < 0 \<or> 65535 < integer_of port
         then (Rejected TypeError, w1)
         else
           let p = nat (integer_of port);
               w2 = w1\<lparr>binds := binds w1 @ [(sock, p)]\<rparr>
           in case bind_of env options sock p of
                Bind_throws e \<Rightarrow> (Rejected e, w2)
              | Emits_error e \<Rightarrow> (Pending, emit_error sock e w2)
              | Callback_now (Some bindError) \<Rightarrow> (Rejected bindError, w2)
              | Callback_now None \<Rightarrow>
                  (case Client_constructor env \<lparr>arg_events = None, arg_socket = sock\<rparr> w2 of
                     (Inl e, w3) \<Rightarrow> (Rejected e, w3)
                   | (Inr c, w3) \<Rightarrow> (Fulfilled c, w3))
              | Callback_later (Some bindError) \<Rightarrow> (Rejected bindError, w2)
              | Callback_later None \<Rightarrow>
                  (case Client_constructor env \<lparr>arg_events = None, arg_socket = sock\<rparr> w2 of
                     (Inl e, w3) \<Rightarrow> (Pending, w3\<lparr>uncaught := uncaught w3 @ [e]\<rparr>)
                   | (Inr c, w3) \<Rightarrow> (Fulfilled c, w3)))"

text \<open>
  The two \<open>trigger\<close> closures, of \<open>discover\<close>
  \<^verbatim>\<open>
  const message = createMessage(this);
  message[2] |= 0b00100000; // discovery tag
  message[22] |= 0b00000011; // ack/res tags
  return send(this.socket, message, port);
  \<close>
  and of \<open>send\<close>
  \<^verbatim>\<open>
  const message = createMessage(this, payload);
  return send(this.socket, message); // port?
  \<close>
  An exception of \<open>createMessage\<close> leaves \<open>trigger\<close> before \<open>send\<close> is called.
\<close>

definition discover_trigger :: "client \<Rightarrow> nat \<Rightarrow> world \<Rightarrow> (error + nat option) \<times> world" where
  "discover_trigger this port w =
     (case createMessage this Undefined w of
        (Inl e, w1) \<Rightarrow> (Inl e, w1)
      | (Inr message, w1) \<Rightarrow>
          (let message = message[2 := message ! 2 OR 0x20];
               message = message[22 := message ! 22 OR 0x03];
               (p, w2) = send (socket this, message, Some port) w1
           in (Inr p, w2)))"

definition send_trigger :: "client \<Rightarrow> jsval \<Rightarrow> world \<Rightarrow> (error + nat option) \<times> world" where
  "send_trigger this payload w =
     (case createMessage this payload w of
        (Inl e, w1) \<Rightarrow> (Inl e, w1)
      | (Inr message, w1) \<Rightarrow>
          (let (p, w2) = send (socket this, message, None) w1 in (Inr p, w2)))"

text \<open>
  The last statement of the executor of \<open>discover\<close> and of \<open>send\<close> (lines 134 and 155),
  \<^verbatim>\<open>trigger().then(() => setTimeout(cleanup, timeout), reject);\<close>
  on what \<open>trigger()\<close> did, for the exchange whose listener is \<open>Consume k\<close>, with
  \<^verbatim>\<open>
  const messages = []; // filter these?
  const consume = (message) => { messages.push(message); };
  const cleanup = () => {
    this.socket.removeListener('message', consume);
    setImmediate(resolve, messages);
  };
  \<close>
  A throw of \<open>trigger\<close> (or of \<open>.then\<close> on an undefined result) is a throw in the
  executor and rejects the promise. A rejected transport promise rejects it too. A
  fulfilled one schedules \<open>cleanup\<close>, which removes the listener and resolves with the
  datagrams the environment delivered to it, in the order of their arrival. The outcome
  is the one the promise of the exchange ends with; nothing on the rejecting paths
  removes the listener or sets a timer.
\<close>

definition then_cleanup_or_reject ::
  "env \<Rightarrow> client \<Rightarrow> nat \<Rightarrow> nat \<Rightarrow> (error + nat option) \<times> world \<Rightarrow>
   byte list list promise \<times> world" where
  "then_cleanup_or_reject env this k timeout completion =
     (case completion of
        (Inl e, w) \<Rightarrow> (Rejected e, w)
      | (Inr None, w) \<Rightarrow> (Rejected TypeError, w)
      | (Inr (Some p), w) \<Rightarrow>
          (case send_callback env p of
             Never \<Rightarrow> (Pending, w)
           | Called (Some sendError) \<Rightarrow> (Rejected sendError, w)
           | Called None \<Rightarrow>
               (let w1 = w\<lparr>timeouts := timeouts w @ [(k, timeout)]\<rparr>;
                    w2 = removeListener (socket this) Message (Consume k) w1
                in (Fulfilled (received env k), w2))))"

text \<open>
  The executor both methods share. Its first statements make the closure \<open>consume\<close> of
  this exchange and attach it to the socket
  (\<^verbatim>\<open>this.socket.on('message', consume); // listen for response\<close>); \<open>trigger\<close> is
  called after that.
\<close>

definition listening :: "client \<Rightarrow> world \<Rightarrow> world" where
  "listening this w =
     emitter_on (socket this) Message (Consume (exchanges w))
       (w\<lparr>exchanges := Suc (exchanges w)\<rparr>)"

definition exchange ::
  "env \<Rightarrow> client \<Rightarrow> nat \<Rightarrow> (world \<Rightarrow> (error + nat option) \<times> world) \<Rightarrow> world \<Rightarrow>
   byte list list promise \<times> world" where
  "exchange env this timeout trigger w =
     then_cleanup_or_reject env this (exchanges w) timeout (trigger (listening this w))"

text \<open>
  The methods \<^verbatim>\<open>discover (timeout = 1000, port = 56700)\<close> and
  \<^verbatim>\<open>send (timeout = 1000, payload)\<close>: an argument left out is \<open>None\<close>. The method
  \<open>send\<close> is \<open>Client_send\<close> here, \<open>send\<close> being the throttled transport of the
  module. Logging is left out.
\<close>

definition discover ::
  "env \<Rightarrow> client \<Rightarrow> nat option \<Rightarrow> nat option \<Rightarrow> world \<Rightarrow> byte list list promise \<times> world" where
  "discover env this timeout port w =
     exchange env this (case timeout of None \<Rightarrow> 1000 | Some t \<Rightarrow> t)
       (discover_trigger this (case port of None \<Rightarrow> 56700 | Some p \<Rightarrow> p)) w"

definition Client_send ::
  "env \<Rightarrow> client \<Rightarrow> nat option \<Rightarrow> jsval \<Rightarrow> world \<Rightarrow> byte list list promise \<times> world" where
  "Client_send env this timeout payload w =
     exchange env this (case timeout of None \<Rightarrow> 1000 | Some t \<Rightarrow> t)
       (send_trigger this payload) w"

section \<open>Scripts of the event loop\<close>

text \<open>The calls of a script in order, each with its time.\<close>

fun calls_of :: "(nat \<times> loop_event) list \<Rightarrow> (nat \<times> send_args) list" where
  "calls_of [] = []"
| "calls_of ((t, Call args) # script) = (t, args) # calls_of script"
| "calls_of ((t, Tick) # script) = calls_of script"

text \<open>The times of a script never go back, starting from \<open>t\<close>.\<close>

fun ascending :: "nat \<Rightarrow> (nat \<times> loop_event) list \<Rightarrow> bool" where
  "ascending t [] = True"
| "ascending t ((t', e) # script) = (t \<le> t' \<and> ascending t' script)"

text \<open>The call that waits for the trailing edge, if there is one.\<close>

definition pending :: "world \<Rightarrow> send_args set" where
  "pending w = set_option (lastArgs (throttled w))"

text \<open>
  What a step does to the transport: nothing, it keeps the arguments of a call for later,
  or it transmits.
\<close>

datatype effect = Quiet | Defer send_args | Transmit send_args

definition effect_of :: "effect \<Rightarrow> nat \<Rightarrow> world \<Rightarrow> world \<Rightarrow> bool" where
  "effect_of eff t w w' \<longleftrightarrow> clock w' = t \<and>
     (case eff of
        Quiet \<Rightarrow> wire w' = wire w \<and> lastArgs (throttled w') = lastArgs (throttled w) \<and>
                 lastInvokeTime (throttled w') = lastInvokeTime (throttled w) \<and>
                 lastCallTime (throttled w') = lastCallTime (throttled w)
      | Defer X \<Rightarrow> wire w' = wire w \<and> lastArgs (throttled w') = Some X \<and>
                 lastInvokeTime (throttled w') = lastInvokeTime (throttled w) \<and>
                 lastCallTime (throttled w') = Some t
      | Transmit X \<Rightarrow> wire w' = wire w @ [(t, X)] \<and> lastArgs (throttled w') = None \<and>
                 lastInvokeTime (throttled w') = t)"

text \<open>
  The invariant of the throttle after the calls \<open>H\<close>: the times are in order and no
  transmission is later than \<open>lastInvokeTime\<close>; a waiting call is the last call and has
  not been transmitted; the transmissions follow the order of the calls and none
  precedes its call; and the transmissions of two calls less than 50 ms apart are at
  least 50 ms apart.
\<close>

definition inv_times :: "(nat \<times> send_args) list \<Rightarrow> world \<Rightarrow> bool" where
  "inv_times H w \<longleftrightarrow>
     lastInvokeTime (throttled w) \<le> clock w \<and>
     (\<forall>(a, X) \<in> set (wire w). a \<le> lastInvokeTime (throttled w)) \<and>
     lastCallTime (throttled w) = (if H = [] then None else Some (fst (last H))) \<and>
     sorted (map fst H) \<and>
     (H \<noteq> [] \<longrightarrow> fst (last H) \<le> clock w)"

definition inv_pending :: "(nat \<times> send_args) list \<Rightarrow> world \<Rightarrow> bool" where
  "inv_pending H w \<longleftrightarrow>
     (\<forall>X. lastArgs (throttled w) = Some X \<longrightarrow>
        H \<noteq> [] \<and> X = snd (last H) \<and> lastInvokeTime (throttled w) \<le> fst (last H) \<and>
        subseq (transmitted w) (map snd (butlast H)))"

definition inv_order :: "(nat \<times> send_args) list \<Rightarrow> world \<Rightarrow> bool" where
  "inv_order H w \<longleftrightarrow>
     subseq (transmitted w) (map snd H) \<and>
     (\<forall>(a, X) \<in> set (wire w). \<exists>x. (x, X) \<in> set H \<and> x \<le> a)"

definition inv_spacing :: "(nat \<times> send_args) list \<Rightarrow> world \<Rightarrow> bool" where
  "inv_spacing H w \<longleftrightarrow>
     (\<forall>i j a b. i < j \<and> j < length H \<and> fst (H ! j) < fst (H ! i) + 50 \<and>
        (a, snd (H ! i)) \<in> set (wire w) \<and> (b, snd (H ! j)) \<in> set (wire w) \<longrightarrow> a + 50 \<le> b)"

definition throttle_inv :: "(nat \<times> send_args) list \<Rightarrow> world \<Rightarrow> bool" where
  "throttle_inv H w \<longleftrightarrow> inv_times H w \<and> inv_pending H w \<and> inv_order H w \<and> inv_spacing H w"

text \<open>
  The timer of the throttle: a pending timer is due no earlier than 50 ms after the last
  transmission and no later than 50 ms from now, and a waiting call has a timer, due
  within 50 ms of the last call.
\<close>

definition inv_timer :: "(nat \<times> send_args) list \<Rightarrow> world \<Rightarrow> bool" where
  "inv_timer H w \<longleftrightarrow>
     (\<forall>due. timerId (throttled w) = Some due \<longrightarrow>
        lastInvokeTime (throttled w) + 50 \<le> due \<and> due \<le> clock w + 50) \<and>
     (\<forall>X. lastArgs (throttled w) = Some X \<longrightarrow>
        H \<noteq> [] \<and> (\<exists>due. timerId (throttled w) = Some due \<and> due \<le> fst (last H) + 50))"

text \<open>
  The last transmission: \<open>lastInvokeTime\<close> is its time, and once there has been a call
  there has been a transmission.
\<close>

definition inv_last :: "(nat \<times> send_args) list \<Rightarrow> world \<Rightarrow> bool" where
  "inv_last H w \<longleftrightarrow>
     (wire w \<noteq> [] \<longrightarrow> lastInvokeTime (throttled w) = fst (last (wire w))) \<and>
     (H \<noteq> [] \<longrightarrow> wire w \<noteq> [])"

section \<open>Examples\<close>

text \<open>
  A client with the nonce 01 02 03 04 on socket 0; an environment in which every bind
  and every send succeeds and no datagram arrives, and one in which every bind and every
  send fails; three frames, a script of two calls 10 ms apart, a script that calls
  the transport with the three frames within 20 ms and then lets the timer fire, and one
  in which the loop turns between the second call and the third.
\<close>

definition example_client :: client where
  "example_client = \<lparr>nonce = [1, 2, 3, 4], socket = 0, events = 1\<rparr>"

definition quiet_env :: env where
  "quiet_env =
     \<lparr>Math_random = (\<lambda>n. 1 / 2), dgram_bind = (\<lambda>s p. None),
      socket_bind = (\<lambda>s p. Callback_later None),
      send_callback = (\<lambda>n. Called None), received = (\<lambda>k. [])\<rparr>"

definition failing_env :: env where
  "failing_env =
     \<lparr>Math_random = (\<lambda>n. 1 / 2), dgram_bind = (\<lambda>s p. Some (Error ''EADDRINUSE'')),
      socket_bind = (\<lambda>s p. Emits_error (Error ''EADDRINUSE'')),
      send_callback = (\<lambda>n. Called (Some (Error ''EPERM''))), received = (\<lambda>k. [])\<rparr>"

definition frame_A :: send_args where "frame_A = (0, [1], Some 56700)"
definition frame_B :: send_args where "frame_B = (0, [2], Some 56700)"
definition frame_C :: send_args where "frame_C = (0, [3], Some 56700)"

definition two_calls :: "(nat \<times> loop_event) list" where
  "two_calls = [(1000, Call frame_A), (1010, Call frame_B)]"

definition burst :: "(nat \<times> loop_event) list" where
  "burst = [(1000, Call frame_A), (1010, Call frame_B), (1020, Call frame_C),
            (1050, Tick), (1100, Tick)]"

definition interrupted :: "(nat \<times> loop_event) list" where
  "interrupted = [(1000, Call frame_A), (1010, Call frame_B), (1030, Tick),
                  (1040, Call frame_C), (1050, Tick)]"

section \<open>The options and the layout of the specification\<close>

text \<open>
  The specification describes an encoder with option flags: a target address and the
  flags \<open>tagged\<close>, \<open>ackRequired\<close> and \<open>resRequired\<close>. By its wire layout the target is
  bytes 8 to 15 of the frame, \<open>ack_required\<close> is bit 1 and \<open>res_required\<close> bit 0 of byte
  22. \<open>honours\<close> says that a frame carries what the options ask for; \<open>encodes\<close> says it
  of the outcome of an encoder. The code has no such options.
\<close>

record encode_options =
  tagged :: bool
  ackRequired :: bool
  resRequired :: bool
  target :: "byte list"

definition honours :: "encode_options \<Rightarrow> byte list \<Rightarrow> bool" where
  "honours options frame =
     (take 8 (drop 8 frame) = target options \<and>
      bit (frame ! 22) 1 = ackRequired options \<and>
      bit (frame ! 22) 0 = resRequired options)"

definition encodes :: "encode_options \<Rightarrow> (error + byte list) \<Rightarrow> bool" where
  "encodes options outcome =
     (case outcome of Inl e \<Rightarrow> False | Inr frame \<Rightarrow> honours options frame)"

text \<open>
  Why a send step failed, if it did: \<open>trigger\<close> threw, it returned no promise, or the
  transport rejected the promise it returned.
\<close>

definition send_step_failure :: "env \<Rightarrow> (error + nat option) \<Rightarrow> error option" where
  "send_step_failure env completed =
     (case completed of
        Inl e \<Rightarrow> Some e
      | Inr None \<Rightarrow> Some TypeError
      | Inr (Some p) \<Rightarrow>
          (case send_callback env p of
             Called (Some sendError) \<Rightarrow> Some sendError
           | other \<Rightarrow> None))"

text \<open>The socket \<open>create\<close> binds: the one passed in, or the one it creates.\<close>

definition created_socket :: "create_options \<Rightarrow> world \<Rightarrow> emitter" where
  "created_socket options w = (case opt_socket options of Some s \<Rightarrow> s | None \<Rightarrow> emitters w)"

section \<open>The encoder never returns\<close>

lemma concat_segments_throws:
  "Buffer_concat (createMessage_segments payload) = Inl TypeError"
  by (simp add: createMessage_segments_def)

lemma createMessage_throws: "createMessage this payload w = (Inl TypeError, w)"
  by (simp add: createMessage_def concat_segments_throws)

lemma discover_trigger_throws: "discover_trigger this port w = (Inl TypeError, w)"
  by (simp add: discover_trigger_def createMessage_throws)

lemma send_trigger_throws: "send_trigger this payload w = (Inl TypeError, w)"
  by (simp add: send_trigger_def createMessage_throws)

lemma exchange_throw:
  "trigger (listening this w) = (Inl e, w') \<Longrightarrow>
   exchange env this timeout trigger w = (Rejected e, w')"
  by (simp add: exchange_def then_cleanup_or_reject_def)

lemma discover_rejects:
  "discover env this timeout port w = (Rejected TypeError, listening this w)"
  by (simp add: discover_def exchange_throw discover_trigger_throws)

lemma Client_send_rejects:
  "Client_send env this timeout payload w = (Rejected TypeError, listening this w)"
  by (simp add: Client_send_def exchange_throw send_trigger_throws)

text \<open>
  Claim C9. \<open>createMessage\<close> calls \<open>Buffer.concat\<close> with four Buffers as four arguments
  and not with one Array of them. The call throws a TypeError whatever the client and
  the payload are, so \<open>createMessage\<close> throws before its size check and returns no
  frame; \<open>discover\<close> and \<open>send\<close> reject with that TypeError and neither calls the
  transport: nothing is added to the wire and the throttle is left as it was.
\<close>

theorem createMessage_always_throws:
  "Buffer_concat (createMessage_segments payload) = Inl TypeError \<and>
   createMessage this payload w = (Inl TypeError, w) \<and>
   fst (discover env this timeout port w) = Rejected TypeError \<and>
   wire (snd (discover env this timeout port w)) = wire w \<and>
   throttled (snd (discover env this timeout port w)) = throttled w \<and>
   fst (Client_send env this timeout payload w) = Rejected TypeError \<and>
   wire (snd (Client_send env this timeout payload w)) = wire w \<and>
   throttled (snd (Client_send env this timeout payload w)) = throttled w"
  by (simp add: concat_segments_throws createMessage_throws discover_rejects
      Client_send_rejects listening_def emitter_on_def)

section \<open>What the statements after the concatenation would write\<close>

text \<open>
  The statements of \<open>createMessage\<close> that follow the concatenation are never reached.
  The lemmas of this section say what they do to a Buffer that reaches them: they are
  what the encoder attempts.
\<close>

lemma and_255: "(n::nat) AND 255 = n mod 256"
proof -
  have "(255::nat) = mask 8" by (simp add: mask_eq_exp_minus_1)
  then have "n AND 255 = take_bit 8 n" by (simp add: take_bit_eq_mask)
  then show ?thesis by (simp add: take_bit_eq_mod)
qed

lemma size_high: "drop_bit 8 ((n::nat) AND 0xFF00) = (n div 256) mod 256"
proof -
  have "drop_bit 8 (65280::nat) = 255" by (simp add: drop_bit_eq_div)
  then have "drop_bit 8 (n AND 0xFF00) = drop_bit 8 n AND 255" by simp
  then show ?thesis by (simp add: and_255 drop_bit_eq_div)
qed

lemma size_bytes:
  assumes "n \<le> 65535"
  shows "256 * unat (of_nat (drop_bit 8 (n AND 0xFF00)) :: byte)
         + unat (of_nat (drop_bit 0 (n AND 0x00FF)) :: byte) = n"
proof -
  have "n div 256 < 256" using assms by simp
  then have hi: "unat (of_nat (drop_bit 8 (n AND 0xFF00)) :: byte) = n div 256"
    by (simp add: size_high unat_of_nat del: drop_bit_and)
  have lo: "unat (of_nat (drop_bit 0 (n AND 0x00FF)) :: byte) = n mod 256"
    by (simp add: and_255 unat_of_nat)
  show ?thesis unfolding hi lo by simp
qed

lemma length_concat_replicate: "length (concat (replicate n xs)) = n * length xs"
  by (induction n) simp_all

lemma Buffer_fill_length:
  assumes "Buffer_fill buf val a b = Inr r"
  shows "length r = length buf"
proof (cases "b \<le> a \<or> val = []")
  case True
  with assms show ?thesis by (auto simp: Buffer_fill_def split: if_splits)
next
  case False
  then have "b - a \<le> (b - a) * length val" by (cases val) auto
  with False assms show ?thesis
    by (auto simp: Buffer_fill_def length_concat_replicate min_def split: if_splits)
qed

lemma Buffer_fill_before:
  "Buffer_fill buf val a b = Inr r \<Longrightarrow> i < a \<Longrightarrow> i < length buf \<Longrightarrow> r ! i = buf ! i"
  by (auto simp: Buffer_fill_def nth_append split: if_splits)

lemma Buffer_fill_after:
  assumes "Buffer_fill buf val a b = Inr r" and "b \<le> i" and "i < length buf"
  shows "r ! i = buf ! i"
proof (cases "b \<le> a \<or> val = []")
  case True
  with assms show ?thesis by (auto simp: Buffer_fill_def split: if_splits)
next
  case False
  then have le: "b - a \<le> (b - a) * length val" by (cases val) auto
  from False assms have r: "r = take a buf @ take (b - a) (concat (replicate (b - a) val)) @ drop b buf"
    and b: "b \<le> length buf"
    by (auto simp: Buffer_fill_def split: if_splits)
  have "length (take a buf @ take (b - a) (concat (replicate (b - a) val))) = b"
    using False b le by (simp add: length_concat_replicate min_def)
  then have "r ! i = drop b buf ! (i - b)"
    using assms(2) unfolding r append_assoc [symmetric]
    by (metis leD nth_append)
  then show ?thesis using assms(2) b by simp
qed

lemma Buffer_fill_fit:
  assumes "length val = b - a" and "a < b" and "b \<le> length buf"
  shows "Buffer_fill buf val a b = Inr (take a buf @ val @ drop b buf)"
proof -
  obtain n where n: "b - a = Suc n" using assms(2) by (cases "b - a") auto
  have "take (length val) (concat (replicate (Suc n) val)) = val" by simp
  with assms n show ?thesis by (auto simp: Buffer_fill_def)
qed

text \<open>
  On a Buffer of at least 24 and at most 65535 bytes and a nonce of 4 bytes: the size in
  bytes 0 and 1, big-endian; 0x14 in byte 2; the nonce in bytes 4 to 7; the next sequence
  byte in byte 23; every other byte as it was.
\<close>

lemma stamp_layout:
  assumes len: "24 \<le> length message" "length message \<le> 65535"
    and nonce: "length (nonce this) = 4"
  shows "\<exists>frame. createMessage_stamp this message w = (Inr frame, snd (nextByte w)) \<and>
           length frame = length message \<and>
           256 * unat (frame ! 0) + unat (frame ! 1) = length message \<and>
           frame ! 2 = 0x14 \<and>
           take 4 (drop 4 frame) = nonce this \<and>
           frame ! 23 = of_nat (fst (nextByte w)) \<and>
           (\<forall>i. i < length message \<and> i \<notin> {0, 1, 2, 4, 5, 6, 7, 23} \<longrightarrow> frame ! i = message ! i)"
proof -
  define m3 where "m3 = message[0 := of_nat (drop_bit 8 (length message AND 0xFF00)),
      1 := of_nat (drop_bit 0 (length message AND 0x00FF)), 2 := 0x14]"
  have l3: "length m3 = length message" by (simp add: m3_def)
  define m4 where "m4 = take 4 m3 @ nonce this @ drop 8 m3"
  have m4: "Buffer_fill m3 (nonce this) 4 8 = Inr m4"
    unfolding m4_def using len l3 nonce by (intro Buffer_fill_fit) auto
  have l4: "length m4 = length message" using Buffer_fill_length [OF m4] l3 by simp
  define frame where "frame = m4[23 := of_nat (fst (nextByte w))]"
  have run: "createMessage_stamp this message w = (Inr frame, snd (nextByte w))"
    using len m4 by (simp add: createMessage_stamp_def m3_def frame_def case_prod_beta Let_def)
  have lf: "length frame = length message" by (simp add: frame_def l4)
  have p: "0 < length message" "1 < length message" "2 < length message"
    using len by auto
  have q: "m4 ! 0 = m3 ! 0" "m4 ! 1 = m3 ! 1" "m4 ! 2 = m3 ! 2"
    using Buffer_fill_before [OF m4, of 0] Buffer_fill_before [OF m4, of 1]
      Buffer_fill_before [OF m4, of 2] p l3 by simp_all
  have f0: "frame ! 0 = of_nat (drop_bit 8 (length message AND 0xFF00))"
    unfolding frame_def using p q(1) by (simp add: m3_def del: drop_bit_and)
  have f1: "frame ! 1 = of_nat (drop_bit 0 (length message AND 0x00FF))"
    unfolding frame_def using p q(2) by (simp add: m3_def)
  have f2: "frame ! 2 = 0x14"
    unfolding frame_def using p q(3) by (simp add: m3_def)
  have f23: "frame ! 23 = of_nat (fst (nextByte w))"
    using len by (simp add: frame_def l4)
  have "drop 4 frame = (drop 4 m4)[19 := of_nat (fst (nextByte w))]"
    by (simp add: frame_def drop_update_swap)
  moreover have "drop 4 m4 = nonce this @ drop 8 m3"
    using len l3 by (simp add: m4_def)
  ultimately have nn: "take 4 (drop 4 frame) = nonce this"
    using nonce by simp
  have rest: "\<forall>i. i < length message \<and> i \<notin> {0, 1, 2, 4, 5, 6, 7, 23} \<longrightarrow> frame ! i = message ! i"
  proof (intro allI impI)
    fix i assume a: "i < length message \<and> i \<notin> {0, 1, 2, 4, 5, 6, 7, 23}"
    then have "frame ! i = m4 ! i" by (simp add: frame_def)
    also have "\<dots> = m3 ! i"
    proof (cases "i < 4")
      case True
      then show ?thesis using Buffer_fill_before [OF m4, of i] a l3 by simp
    next
      case False
      with a have "8 \<le> i" by auto
      then show ?thesis using Buffer_fill_after [OF m4, of i] a l3 by simp
    qed
    also have "\<dots> = message ! i" using a by (simp add: m3_def)
    finally show "frame ! i = message ! i" .
  qed
  from run lf f0 f1 f2 f23 nn rest size_bytes [OF len(2)] show ?thesis
    by (intro exI [of _ frame]) simp
qed

text \<open>Bytes 8 to 22, the target and the ack/res byte among them, are left as they are.\<close>

lemma stamp_keeps_address:
  assumes "createMessage_stamp this message w = (Inr frame, w')"
    and "8 \<le> i" "i < 23" "i < length message"
  shows "frame ! i = message ! i"
proof -
  define m3 where "m3 = message[0 := of_nat (drop_bit 8 (length message AND 0xFF00)),
      1 := of_nat (drop_bit 0 (length message AND 0x00FF)), 2 := 0x14]"
  obtain m4 where m4: "Buffer_fill m3 (nonce this) 4 8 = Inr m4"
    and fr: "frame = m4[23 := of_nat (fst (nextByte w))]"
    using assms(1)
    by (auto simp: createMessage_stamp_def m3_def Let_def case_prod_beta
        split: if_splits sum.splits simp del: drop_bit_and)
  have "frame ! i = m4 ! i" using assms(3) by (simp add: fr)
  also have "\<dots> = m3 ! i" using Buffer_fill_after [OF m4, of i] assms by (simp add: m3_def)
  also have "\<dots> = message ! i" using assms by (simp add: m3_def)
  finally show ?thesis .
qed

lemma replicate_numeral: "replicate (numeral k) x = x # replicate (pred_numeral k) x"
  by (simp add: numeral_eq_Suc)

lemma stamped_concatenation:
  "createMessage_stamp example_client (Buffer_alloc 36) (boot 0) =
     (Inr [0, 36, 0x14, 0, 1, 2, 3, 4, 0, 0, 0, 0, 0, 0, 0, 0, 0, 0, 0, 0, 0, 0, 0, 1,
           0, 0, 0, 0, 0, 0, 0, 0, 0, 0, 0, 0], (boot 0)\<lparr>nextByte_value := 1\<rparr>)"
proof -
  have size: "drop_bit 8 ((36::nat) AND 0xFF00) = 0" "drop_bit 0 ((36::nat) AND 0x00FF) = 36"
    by (simp_all add: size_high and_255 del: drop_bit_and)
  have counter: "nextByte (boot 0) = (1, (boot 0)\<lparr>nextByte_value := 1\<rparr>)"
    by (simp add: nextByte_def nextByteValue_def boot_def)
  have len: "length (Buffer_alloc 36) = 36" by (simp add: Buffer_alloc_def)
  have alloc: "Buffer_alloc 36 =
      [0, 0, 0, 0, 0, 0, 0, 0, 0, 0, 0, 0, 0, 0, 0, 0, 0, 0, 0, 0, 0, 0, 0, 0,
       0, 0, 0, 0, 0, 0, 0, 0, 0, 0, 0, 0]"
    by (simp add: Buffer_alloc_def replicate_numeral)
  show ?thesis
    apply (simp only: createMessage_stamp_def Let_def length_list_update len size)
    apply (simp add: counter alloc Buffer_fill_def replicate_numeral list_update_code
        example_client_def)
    done
qed

section \<open>The sequence counter\<close>

lemma nextByte_step:
  "fst (nextByte w) = (nextByte_value w + 1) mod 256 \<and>
   nextByte_value (snd (nextByte w)) = (nextByte_value w + 1) mod 256"
  by (simp add: nextByte_def nextByteValue_def Let_def)

lemma nextByte_frame: "snd (nextByte w) = w\<lparr>nextByte_value := (nextByte_value w + 1) mod 256\<rparr>"
  by (simp add: nextByte_def nextByteValue_def Let_def)

lemma nextByte_iterated:
  "nextByte_value w < 256 \<Longrightarrow>
   nextByte_value (((snd \<circ> nextByte) ^^ n) w) = (nextByte_value w + n) mod 256"
proof (induction n)
  case 0
  then show ?case by simp
next
  case (Suc n)
  then show ?case by (simp add: nextByte_step mod_Suc_eq)
qed

lemma nextByte_wraps: "nextByte_value (((snd \<circ> nextByte) ^^ 256) (boot t)) = 0"
  using nextByte_iterated [of "boot t" 256] by (simp add: boot_def)

section \<open>The frames the encoder was to build\<close>

text \<open>
  Claim C2. An oversized payload does not get the error of the size check. For a payload
  of 65500 bytes \<open>createMessage\<close> throws the TypeError of \<open>Buffer.concat\<close>, as it does
  for every payload; the size check, on the 65536 bytes the concatenation was to be,
  would have thrown \<^verbatim>\<open>Error('over 4KB limit')\<close>.
\<close>

theorem oversized_payload_throws_TypeError:
  "createMessage example_client (Buf (Buffer_alloc 65500)) (boot 0) = (Inl TypeError, boot 0) \<and>
   createMessage_stamp example_client (Buffer_alloc 65536) (boot 0) =
     (Inl (Error ''over 4KB limit''), boot 0)"
  by (simp add: createMessage_throws createMessage_stamp_def Buffer_alloc_def)

text \<open>
  Claim C3. The counter starts at 0 and one call of \<open>nextByte\<close> makes it 1, but a call of
  \<open>createMessage\<close> throws before it reaches \<open>nextByte\<close>: no frame is stamped and the
  counter stays where it was.
\<close>

theorem sequence_counter_not_advanced:
  "nextByte_value (boot 0) = 0 \<and>
   fst (createMessage example_client (Buf [1, 2, 3]) (boot 0)) = Inl TypeError \<and>
   nextByte_value (snd (createMessage example_client (Buf [1, 2, 3]) (boot 0))) = 0 \<and>
   nextByte_value (snd (nextByte (boot 0))) = 1"
  by (simp add: createMessage_throws nextByte_step) (simp add: boot_def)

text \<open>
  Claim C4. \<open>discover\<close> builds no frame: \<open>createMessage\<close> throws on the undefined
  payload as on every other, the promise of \<open>discover\<close> is rejected with the TypeError
  and nothing reaches the wire.
\<close>

theorem discovery_frame_not_built:
  "createMessage example_client Undefined (boot 0) = (Inl TypeError, boot 0) \<and>
   fst (discover quiet_env example_client None None (boot 0)) = Rejected TypeError \<and>
   wire (snd (discover quiet_env example_client None None (boot 0))) = []"
  by (simp add: createMessage_throws discover_rejects listening_def emitter_on_def)
     (simp add: boot_def)

text \<open>
  Claim C8, as stated, fails: asked for an acknowledgement and the target 01..08, the
  encoder returns no frame, and the frame its statements would stamp onto the
  concatenation carries neither.
\<close>

theorem encoder_takes_no_options_counterexample:
  "\<not> encodes \<lparr>tagged = False, ackRequired = True, resRequired = False,
               target = [1, 2, 3, 4, 5, 6, 7, 8]\<rparr>
       (fst (createMessage example_client (Buf []) (boot 0))) \<and>
   \<not> encodes \<lparr>tagged = False, ackRequired = True, resRequired = False,
               target = [1, 2, 3, 4, 5, 6, 7, 8]\<rparr>
       (fst (createMessage_stamp example_client (Buffer_alloc 36) (boot 0)))"
  by (simp add: createMessage_throws stamped_concatenation encodes_def honours_def)

text \<open>
  Claim C8, amended. The encoder takes a client and a payload and nothing else. The
  address block it prepares is 16 zero bytes, which is the broadcast target with both
  request bits clear, and its statements after the concatenation leave bytes 8 to 22 of
  the message as they are.
\<close>

theorem encoder_prepares_broadcast_address:
  "createMessage_segments payload ! 1 = Buf (replicate 16 0) \<and>
   (createMessage_stamp this message w = (Inr frame, w') \<and> 8 \<le> i \<and> i < 23 \<and> i < length message
      \<longrightarrow> frame ! i = message ! i)"
  by (auto simp: createMessage_segments_def Buffer_alloc_def intro: stamp_keeps_address)

theorem encoder_prepares_broadcast_address_witness:
  "createMessage_segments (Buf [7]) ! 1 = Buf (replicate 16 0) \<and>
   createMessage_stamp example_client (Buffer_alloc 36) (boot 0) =
     (Inr [0, 36, 0x14, 0, 1, 2, 3, 4, 0, 0, 0, 0, 0, 0, 0, 0, 0, 0, 0, 0, 0, 0, 0, 1,
           0, 0, 0, 0, 0, 0, 0, 0, 0, 0, 0, 0], (boot 0)\<lparr>nextByte_value := 1\<rparr>) \<and>
   (8::nat) \<le> 22 \<and> (22::nat) < 23 \<and> 22 < length (Buffer_alloc 36) \<and>
   [0, 36, 0x14, 0, 1, 2, 3, 4, 0, 0, 0, 0, 0, 0, 0, 0, 0, 0, 0, 0, 0, 0, 0, 1,
           0, 0, 0, 0, 0, 0, 0, 0, 0, 0, 0, (0::byte)] ! 22 = Buffer_alloc 36 ! 22"
proof -
  have len: "22 < length (Buffer_alloc 36)" by (simp add: Buffer_alloc_def)
  show ?thesis
    using encoder_prepares_broadcast_address [of "Buf [7]" example_client "Buffer_alloc 36" "boot 0"
      "[0, 36, 0x14, 0, 1, 2, 3, 4, 0, 0, 0, 0, 0, 0, 0, 0, 0, 0, 0, 0, 0, 0, 0, 1,
           0, 0, 0, 0, 0, 0, 0, 0, 0, 0, 0, 0]" "(boot 0)\<lparr>nextByte_value := 1\<rparr>" 22]
      stamped_concatenation len
    by simp
qed

section \<open>Exchanges\<close>

text \<open>
  Claim C6. \<open>discover(100, 56700)\<close> does not resolve with the datagrams of a listening
  window: its promise is rejected with the TypeError of the encoder, and no timeout is
  ever scheduled.
\<close>

theorem discover_rejects_without_listening_window:
  "fst (discover quiet_env example_client (Some 100) (Some 56700) (boot 0)) = Rejected TypeError \<and>
   fst (discover quiet_env example_client (Some 100) (Some 56700) (boot 0)) \<noteq> Fulfilled [] \<and>
   timeouts (snd (discover quiet_env example_client (Some 100) (Some 56700) (boot 0))) = []"
  by (simp add: discover_rejects listening_def emitter_on_def) (simp add: boot_def)

text \<open>
  Claim C5, as stated, fails: the listener is attached before the send step. After a
  \<open>send\<close> that is rejected the listener is on the socket; and when the transport
  rejects the promise of the send step, the exchange is rejected with the error of the
  transport in the very state in which the listener was attached.
\<close>

theorem listener_attached_before_send_counterexample:
  "fst (Client_send quiet_env example_client (Some 200) (Buf [1]) (boot 0)) = Rejected TypeError \<and>
   listeners (snd (Client_send quiet_env example_client (Some 200) (Buf [1]) (boot 0)))
     = [(0, Message, Consume 0)] \<and>
   listeners (listening example_client (boot 0)) = [(0, Message, Consume 0)] \<and>
   then_cleanup_or_reject failing_env example_client 0 200
       (Inr (Some 0), listening example_client (boot 0))
     = (Rejected (Error ''EPERM''), listening example_client (boot 0))"
  by (simp add: Client_send_rejects then_cleanup_or_reject_def failing_env_def)
     (simp add: listening_def emitter_on_def boot_def example_client_def)

lemma exchange_failure:
  assumes "send_step_failure env (fst (trigger (listening this w))) = Some e"
  shows "exchange env this timeout trigger w = (Rejected e, snd (trigger (listening this w)))"
proof -
  obtain r w' where t: "trigger (listening this w) = (r, w')"
    by (cases "trigger (listening this w)")
  with assms show ?thesis
    by (auto simp: exchange_def then_cleanup_or_reject_def send_step_failure_def
        split: sum.splits option.splits callback.splits)
qed

text \<open>
  Claim C5, amended. When the send step of an exchange fails, the promise is rejected
  with the error of that step and nothing else happens: no timeout is scheduled and the
  state is the one the send step left. The listener of the exchange was attached to the
  socket before the send step began. This holds of the executor with any trigger, and so
  of \<open>discover\<close> and of \<open>send\<close>.
\<close>

theorem failed_send_step_rejects:
  "(send_step_failure env (fst (trigger (listening this w))) = Some e \<longrightarrow>
      exchange env this timeout trigger w = (Rejected e, snd (trigger (listening this w)))) \<and>
   (send_step_failure env (fst (discover_trigger this port (listening this w))) = Some e \<longrightarrow>
      discover env this (Some timeout) (Some port) w
        = (Rejected e, snd (discover_trigger this port (listening this w)))) \<and>
   (send_step_failure env (fst (send_trigger this payload (listening this w))) = Some e \<longrightarrow>
      Client_send env this (Some timeout) payload w
        = (Rejected e, snd (send_trigger this payload (listening this w)))) \<and>
   (socket this, Message, Consume (exchanges w)) \<in> set (listeners (listening this w))"
  by (simp add: exchange_failure discover_def Client_send_def listening_def emitter_on_def)

theorem failed_send_step_rejects_witness:
  "send_step_failure failing_env (fst (Inr (Some 0), listening example_client (boot 0)))
     = Some (Error ''EPERM'') \<and>
   exchange failing_env example_client 200 (Pair (Inr (Some 0))) (boot 0)
     = (Rejected (Error ''EPERM''), listening example_client (boot 0)) \<and>
   send_step_failure quiet_env
       (fst (discover_trigger example_client 56700 (listening example_client (boot 0))))
     = Some TypeError \<and>
   discover quiet_env example_client (Some 200) (Some 56700) (boot 0)
     = (Rejected TypeError, listening example_client (boot 0)) \<and>
   send_step_failure quiet_env
       (fst (send_trigger example_client (Buf [1]) (listening example_client (boot 0))))
     = Some TypeError \<and>
   Client_send quiet_env example_client (Some 200) (Buf [1]) (boot 0)
     = (Rejected TypeError, listening example_client (boot 0)) \<and>
   (0, Message, Consume 0) \<in> set (listeners (listening example_client (boot 0)))"
proof -
  have a: "send_step_failure failing_env (fst (Inr (Some 0), listening example_client (boot 0)))
     = Some (Error ''EPERM'')"
    by (simp add: send_step_failure_def failing_env_def)
  have b: "send_step_failure quiet_env
       (fst (discover_trigger example_client 56700 (listening example_client (boot 0))))
     = Some TypeError"
    by (simp add: discover_trigger_throws send_step_failure_def)
  have c: "send_step_failure quiet_env
       (fst (send_trigger example_client (Buf [1]) (listening example_client (boot 0))))
     = Some TypeError"
    by (simp add: send_trigger_throws send_step_failure_def)
  have d: "socket example_client = 0" "exchanges (boot 0) = 0"
    by (simp_all add: example_client_def boot_def)
  show ?thesis
    using a b c
      failed_send_step_rejects [of failing_env "Pair (Inr (Some 0))" example_client "boot 0"
        "Error ''EPERM''" 200 56700 "Buf [1]"]
      failed_send_step_rejects [of quiet_env "Pair (Inr (Some 0))" example_client "boot 0"
        TypeError 200 56700 "Buf [1]"]
    by (simp add: d discover_trigger_throws send_trigger_throws)
qed

section \<open>Constructing a client\<close>

lemma length_nonceBytes: "length (fst (nonceBytes env n w)) = n"
  by (induction n arbitrary: w) (simp_all add: case_prod_beta Let_def)

lemma length_nonce_buffer: "length (Buffer_from (fst (nonceBytes env 4 w))) = 4"
  by (simp add: Buffer_from_def length_nonceBytes)

lemma freeze_nonce:
  "Object_freeze (Buf (Buffer_from (fst (nonceBytes env 4 w)))) = Inl TypeError"
proof -
  have "length (Buffer_from (fst (nonceBytes env 4 w))) = 4"
    by (simp add: Buffer_from_def length_nonceBytes)
  then have "Buffer_from (fst (nonceBytes env 4 w)) \<noteq> []" by auto
  then show ?thesis by simp
qed

lemma constructor_throws: "fst (Client_constructor env args w) = Inl TypeError"
  unfolding Client_constructor_def Let_def case_prod_beta
  by (simp add: freeze_nonce del: Object_freeze.simps)

lemma constructor_never_returns: "Client_constructor env args w \<noteq> (Inr c, w')"
  using constructor_throws [of env args w] by auto

lemma create_not_fulfilled: "fst (create env options w) \<noteq> Fulfilled c"
  by (auto simp: create_def Let_def constructor_never_returns
      split: prod.splits option.splits sum.splits binding.splits)

text \<open>
  Claim C10. The nonce the constructor builds is a Buffer of 4 bytes, \<open>Object.freeze\<close>
  throws a TypeError on it, so the constructor throws whatever its arguments are, and the
  promise of \<open>create\<close> is never fulfilled with a client.
\<close>

theorem constructor_never_completes:
  "length (Buffer_from (fst (nonceBytes env 4 w))) = 4 \<and>
   Object_freeze (Buf (Buffer_from (fst (nonceBytes env 4 w)))) = Inl TypeError \<and>
   fst (Client_constructor env args w) = Inl TypeError \<and>
   fst (create env options w) \<noteq> Fulfilled c"
  by (simp add: freeze_nonce constructor_throws create_not_fulfilled length_nonce_buffer
      del: Object_freeze.simps)

theorem constructor_never_completes_witness:
  "length (Buffer_from (fst (nonceBytes quiet_env 4 (boot 0)))) = 4 \<and>
   fst (Client_constructor quiet_env \<lparr>arg_events = None, arg_socket = 0\<rparr> (boot 0)) = Inl TypeError \<and>
   fst (create quiet_env \<lparr>opt_port = Num 56700, opt_socket = None\<rparr> (boot 0))
     \<noteq> Fulfilled example_client"
  using constructor_never_completes [of quiet_env "boot 0" "\<lparr>arg_events = None, arg_socket = 0\<rparr>"
      "\<lparr>opt_port = Num 56700, opt_socket = None\<rparr>" example_client]
  by simp

lemma nonceBytes_world: "snd (nonceBytes env n w) = w\<lparr>random_calls := random_calls w + n\<rparr>"
  by (induction n arbitrary: w) (simp_all add: case_prod_beta Let_def)

lemma constructor_binds: "binds (snd (Client_constructor env args w)) = binds w"
  unfolding Client_constructor_def Let_def case_prod_beta
  by (simp add: freeze_nonce nonceBytes_world emitter_on_def new_emitter_def
      del: Object_freeze.simps split: option.splits)

lemma constructor_uncaught: "uncaught (snd (Client_constructor env args w)) = uncaught w"
  unfolding Client_constructor_def Let_def case_prod_beta
  by (simp add: freeze_nonce nonceBytes_world emitter_on_def new_emitter_def
      del: Object_freeze.simps split: option.splits)

lemma constructor_outcome:
  "Client_constructor env args w = (Inl TypeError, snd (Client_constructor env args w))"
  using constructor_throws [of env args w] by (cases "Client_constructor env args w") simp

text \<open>
  With a port that is neither undefined nor an integer in [0, 65535] the promise is
  rejected with a TypeError and \<open>bind\<close> is not called.
\<close>

lemma create_invalid:
  assumes "opt_port options \<noteq> Undefined"
    and "\<And>q. opt_port options = Num q \<Longrightarrow> q < 0 \<or> 65535 < q"
  shows "fst (create env options w) = Rejected TypeError \<and>
         binds (snd (create env options w)) = binds w"
proof (cases "opt_port options")
  case (Num q)
  with assms(2) [of q] show ?thesis
    by (auto simp: create_def Let_def createBroadcastSocket_def new_emitter_def emitter_on_def
        split: option.splits)
qed (use assms(1) in \<open>auto simp: create_def Let_def createBroadcastSocket_def new_emitter_def
        emitter_on_def split: option.splits\<close>)

text \<open>
  With an integer port in [0, 65535], or with none, \<open>bind\<close> is called once with it, and
  what becomes of the promise follows from what \<open>bind\<close> does; it is never fulfilled.
\<close>

lemma create_outcome:
  assumes "(if opt_port options = Undefined then Num 56700 else opt_port options) = Num p"
    and "0 \<le> p" "p \<le> 65535"
  shows "fst (create env options w) =
           (case bind_of env options (created_socket options w) (nat p) of
              Bind_throws e \<Rightarrow> Rejected e
            | Emits_error e \<Rightarrow> Pending
            | Callback_now None \<Rightarrow> Rejected TypeError
            | Callback_now (Some bindError) \<Rightarrow> Rejected bindError
            | Callback_later None \<Rightarrow> Pending
            | Callback_later (Some bindError) \<Rightarrow> Rejected bindError)"
proof -
  have "fst (case Client_constructor env args w' of
               (Inl e, w3) \<Rightarrow> (Rejected e, w3)
             | (Inr c, w3) \<Rightarrow> (Fulfilled c, w3)) = Rejected TypeError"
    and "fst (case Client_constructor env args w' of
               (Inl e, w3) \<Rightarrow> (Pending, w3\<lparr>uncaught := uncaught w3 @ [e]\<rparr>)
             | (Inr c, w3) \<Rightarrow> (Fulfilled c, w3)) = Pending" for args w'
    by (subst constructor_outcome, simp)+
  with assms show ?thesis
    by (auto simp: create_def Let_def createBroadcastSocket_def new_emitter_def emitter_on_def
        created_socket_def case_prod_beta split: option.splits binding.splits if_splits)
qed

lemma create_binds:
  assumes "(if opt_port options = Undefined then Num 56700 else opt_port options) = Num p"
    and "0 \<le> p" "p \<le> 65535"
  shows "binds (snd (create env options w)) = binds w @ [(created_socket options w, nat p)]"
proof -
  have "binds (snd (case Client_constructor env args w' of
               (Inl e, w3) \<Rightarrow> (Rejected e, w3)
             | (Inr c, w3) \<Rightarrow> (Fulfilled c, w3))) = binds w'"
    and "binds (snd (case Client_constructor env args w' of
               (Inl e, w3) \<Rightarrow> (Pending, w3\<lparr>uncaught := uncaught w3 @ [e]\<rparr>)
             | (Inr c, w3) \<Rightarrow> (Fulfilled c, w3))) = binds w'" for args w'
    by (subst constructor_outcome, simp add: constructor_binds)+
  with assms show ?thesis
    by (auto simp: create_def Let_def createBroadcastSocket_def new_emitter_def emitter_on_def
        created_socket_def emit_error_def case_prod_beta
        split: option.splits binding.splits if_splits)
qed

text \<open>
  When the bind of the socket that \<open>create\<close> makes succeeds, the constructor runs in
  the callback, in a later turn, and its TypeError is an uncaught exception.
\<close>

lemma create_bound_uncaught:
  assumes "(if opt_port options = Undefined then Num 56700 else opt_port options) = Num p"
    and "0 \<le> p" "p \<le> 65535"
    and "opt_socket options = None" "dgram_bind env (emitters w) (nat p) = None"
  shows "create env options w =
           (Pending, (snd (create env options w))) \<and>
         uncaught (snd (create env options w)) = uncaught w @ [TypeError]"
proof -
  have "snd (case Client_constructor env args w' of
               (Inl e, w3) \<Rightarrow> (Pending, w3\<lparr>uncaught := uncaught w3 @ [e]\<rparr>)
             | (Inr c, w3) \<Rightarrow> (Fulfilled c, w3))
          = (snd (Client_constructor env args w'))
              \<lparr>uncaught := uncaught (snd (Client_constructor env args w')) @ [TypeError]\<rparr>"
    for args w'
    by (subst constructor_outcome) simp
  moreover have "fst (create env options w) = Pending"
    using create_outcome [OF assms(1-3), of env w] assms(4,5)
    by (simp add: bind_of_def created_socket_def)
  ultimately show ?thesis using assms
    by (auto simp: create_def Let_def createBroadcastSocket_def new_emitter_def emitter_on_def
        bind_of_def constructor_uncaught case_prod_beta prod_eq_iff split: if_splits)
qed

text \<open>
  Claim C7. With an integer port in [0, 65535], or with no port, which stands for 56700,
  and the socket that \<open>create\<close> makes bound without error: \<open>bind\<close> is called once,
  on the new socket with that port, the constructor throws its TypeError in the
  callback, nothing catches it, and the promise stays pending, where the claim has it
  resolve to a client. With any other port the promise is rejected with a TypeError and
  \<open>bind\<close> is not called.
\<close>

theorem create_leaves_promise_pending:
  "(opt_socket options = None \<and> opt_port options = Num p \<and> 0 \<le> p \<and> p \<le> 65535 \<and>
    dgram_bind env (emitters w) (nat p) = None \<longrightarrow>
      fst (create env options w) = Pending \<and>
      uncaught (snd (create env options w)) = uncaught w @ [TypeError] \<and>
      binds (snd (create env options w)) = binds w @ [(emitters w, nat p)]) \<and>
   (opt_socket options = None \<and> opt_port options = Undefined \<and>
    dgram_bind env (emitters w) 56700 = None \<longrightarrow>
      fst (create env options w) = Pending \<and>
      uncaught (snd (create env options w)) = uncaught w @ [TypeError] \<and>
      binds (snd (create env options w)) = binds w @ [(emitters w, 56700)]) \<and>
   (opt_port options \<noteq> Undefined \<and> (\<forall>q. opt_port options = Num q \<longrightarrow> q < 0 \<or> 65535 < q) \<longrightarrow>
      fst (create env options w) = Rejected TypeError \<and>
      binds (snd (create env options w)) = binds w)"
proof (intro conjI impI)
  assume a: "opt_socket options = None \<and> opt_port options = Num p \<and> 0 \<le> p \<and> p \<le> 65535 \<and>
    dgram_bind env (emitters w) (nat p) = None"
  then have v: "(if opt_port options = Undefined then Num 56700 else opt_port options) = Num p"
    "0 \<le> p" "p \<le> 65535"
    by simp_all
  from a have s: "opt_socket options = None" "dgram_bind env (emitters w) (nat p) = None"
    by simp_all
  from create_bound_uncaught [OF v s]
  show "fst (create env options w) = Pending"
    and "uncaught (snd (create env options w)) = uncaught w @ [TypeError]"
    by (simp_all add: prod_eq_iff)
  from create_binds [OF v, of env w] s(1)
  show "binds (snd (create env options w)) = binds w @ [(emitters w, nat p)]"
    by (simp add: created_socket_def)
next
  assume a: "opt_socket options = None \<and> opt_port options = Undefined \<and>
    dgram_bind env (emitters w) 56700 = None"
  then have v: "(if opt_port options = Undefined then Num 56700 else opt_port options) = Num 56700"
    "(0::int) \<le> 56700" "(56700::int) \<le> 65535"
    by simp_all
  from a have s: "opt_socket options = None" "dgram_bind env (emitters w) (nat 56700) = None"
    by simp_all
  from create_bound_uncaught [OF v s]
  show "fst (create env options w) = Pending"
    and "uncaught (snd (create env options w)) = uncaught w @ [TypeError]"
    by (simp_all add: prod_eq_iff)
  from create_binds [OF v, of env w] s(1)
  show "binds (snd (create env options w)) = binds w @ [(emitters w, 56700)]"
    by (simp add: created_socket_def)
next
  assume "opt_port options \<noteq> Undefined \<and> (\<forall>q. opt_port options = Num q \<longrightarrow> q < 0 \<or> 65535 < q)"
  then show "fst (create env options w) = Rejected TypeError"
    and "binds (snd (create env options w)) = binds w"
    using create_invalid [of options env w] by auto
qed

theorem create_leaves_promise_pending_witness:
  "fst (create quiet_env \<lparr>opt_port = Num 56700, opt_socket = None\<rparr> (boot 0)) = Pending \<and>
   uncaught (snd (create quiet_env \<lparr>opt_port = Num 56700, opt_socket = None\<rparr> (boot 0)))
     = [TypeError] \<and>
   binds (snd (create quiet_env \<lparr>opt_port = Num 56700, opt_socket = None\<rparr> (boot 0)))
     = [(0, 56700)] \<and>
   fst (create quiet_env \<lparr>opt_port = Undefined, opt_socket = None\<rparr> (boot 0)) = Pending \<and>
   uncaught (snd (create quiet_env \<lparr>opt_port = Undefined, opt_socket = None\<rparr> (boot 0)))
     = [TypeError] \<and>
   binds (snd (create quiet_env \<lparr>opt_port = Undefined, opt_socket = None\<rparr> (boot 0)))
     = [(0, 56700)] \<and>
   fst (create quiet_env \<lparr>opt_port = Num 65536, opt_socket = None\<rparr> (boot 0))
     = Rejected TypeError \<and>
   binds (snd (create quiet_env \<lparr>opt_port = Num 65536, opt_socket = None\<rparr> (boot 0))) = [] \<and>
   fst (create quiet_env \<lparr>opt_port = Str ''80'', opt_socket = None\<rparr> (boot 0))
     = Rejected TypeError \<and>
   binds (snd (create quiet_env \<lparr>opt_port = Str ''80'', opt_socket = None\<rparr> (boot 0))) = []"
proof -
  have q: "dgram_bind quiet_env s p = None" for s p
    by (simp add: quiet_env_def)
  have e: "uncaught (boot 0) = []" "binds (boot 0) = []" "emitters (boot 0) = 0"
    by (simp_all add: boot_def)
  show ?thesis
    using create_leaves_promise_pending [of "\<lparr>opt_port = Num 56700, opt_socket = None\<rparr>" 56700
        quiet_env "boot 0"]
      create_leaves_promise_pending [of "\<lparr>opt_port = Undefined, opt_socket = None\<rparr>" 56700
        quiet_env "boot 0"]
      create_leaves_promise_pending [of "\<lparr>opt_port = Num 65536, opt_socket = None\<rparr>" 56700
        quiet_env "boot 0"]
      create_leaves_promise_pending [of "\<lparr>opt_port = Str ''80'', opt_socket = None\<rparr>" 56700
        quiet_env "boot 0"]
    by (simp add: q e)
qed

section \<open>The throttle\<close>

text \<open>What a call and a fired timer do to the state.\<close>

lemma send_invoking:
  assumes "shouldInvoke (throttled w) (clock w)"
  shows "snd (send args w) =
     w\<lparr>throttled := (throttled w)
          \<lparr>lastArgs := None, last_result := Some (length (wire w)),
           timerId := Some (clock w + 50), lastCallTime := Some (clock w),
           lastInvokeTime := clock w\<rparr>,
       wire := wire w @ [(clock w, args)]\<rparr>"
  using assms
  by (simp add: send_def Let_def leadingEdge_def invokeFunc_def sendPromise_def
      setTimeout_due_def throttle_wait_def)

lemma send_deferring:
  assumes "\<not> shouldInvoke (throttled w) (clock w)"
  shows "snd (send args w) =
     w\<lparr>throttled := (throttled w)
          \<lparr>lastArgs := Some args,
           timerId := (case timerId (throttled w) of None \<Rightarrow> Some (clock w + 50)
                       | Some due \<Rightarrow> Some due),
           lastCallTime := Some (clock w)\<rparr>\<rparr>"
  using assms
  by (auto simp: send_def Let_def setTimeout_due_def throttle_wait_def split: option.splits)

lemma timerExpired_invoking:
  assumes "shouldInvoke (throttled w) (clock w)" and "lastArgs (throttled w) = Some args"
  shows "timerExpired w =
     w\<lparr>throttled := (throttled w)
          \<lparr>lastArgs := None, last_result := Some (length (wire w)),
           timerId := None, lastInvokeTime := clock w\<rparr>,
       wire := wire w @ [(clock w, args)]\<rparr>"
  using assms
  by (cases args) (simp add: timerExpired_def Let_def trailingEdge_def invokeFunc_def sendPromise_def)

lemma timerExpired_idle:
  assumes "shouldInvoke (throttled w) (clock w)" and "lastArgs (throttled w) = None"
  shows "timerExpired w = w\<lparr>throttled := (throttled w)\<lparr>lastArgs := None, timerId := None\<rparr>\<rparr>"
  using assms
  by (simp add: timerExpired_def Let_def trailingEdge_def)

lemma timerExpired_restart:
  assumes "\<not> shouldInvoke (throttled w) (clock w)"
  shows "timerExpired w =
     w\<lparr>throttled := (throttled w)
          \<lparr>timerId := Some (setTimeout_due (clock w) (remainingWait (throttled w) (clock w)))\<rparr>\<rparr>"
  using assms by (simp add: timerExpired_def Let_def)

lemma step_call:
  "if shouldInvoke (throttled w) t
   then effect_of (Transmit args) t w (step (t, Call args) w) \<and>
        lastCallTime (throttled (step (t, Call args) w)) = Some t
   else effect_of (Defer args) t w (step (t, Call args) w)"
proof (cases "shouldInvoke (throttled w) t")
  case True
  then have "shouldInvoke (throttled (w\<lparr>clock := t\<rparr>)) (clock (w\<lparr>clock := t\<rparr>))" by simp
  from send_invoking [OF this, of args] True show ?thesis
    by (simp add: effect_of_def)
next
  case False
  then have "\<not> shouldInvoke (throttled (w\<lparr>clock := t\<rparr>)) (clock (w\<lparr>clock := t\<rparr>))" by simp
  from send_deferring [OF this, of args] False show ?thesis
    by (simp add: effect_of_def)
qed

lemma step_tick:
  "(\<exists>X. lastArgs (throttled w) = Some X \<and> shouldInvoke (throttled w) t \<and>
        effect_of (Transmit X) t w (step (t, Tick) w) \<and>
        lastCallTime (throttled (step (t, Tick) w)) = lastCallTime (throttled w))
   \<or> effect_of Quiet t w (step (t, Tick) w)"
proof -
  let ?w = "w\<lparr>clock := t\<rparr>"
  show ?thesis
  proof (cases "timerId (throttled w)")
    case None
    then show ?thesis by (simp add: effect_of_def)
  next
    case (Some due)
    show ?thesis
    proof (cases "due \<le> t")
      case False
      with Some show ?thesis by (simp add: effect_of_def)
    next
      case True
      show ?thesis
      proof (cases "shouldInvoke (throttled w) t")
        case no: False
        then have "\<not> shouldInvoke (throttled ?w) (clock ?w)" by simp
        from timerExpired_restart [OF this] Some True show ?thesis
          by (simp add: effect_of_def)
      next
        case yes: True
        then have s: "shouldInvoke (throttled ?w) (clock ?w)" by simp
        show ?thesis
        proof (cases "lastArgs (throttled w)")
          case None
          then have "lastArgs (throttled ?w) = None" by simp
          from timerExpired_idle [OF s this] Some True None show ?thesis
            by (simp add: effect_of_def)
        next
          case (Some X)
          then have "lastArgs (throttled ?w) = Some X" by simp
          from timerExpired_invoking [OF s this] \<open>timerId (throttled w) = Some due\<close> True Some yes
          show ?thesis
            by (cases X) (simp add: effect_of_def)
        qed
      qed
    qed
  qed
qed

lemma should_invoke_gap:
  assumes "shouldInvoke s t" and "lastCallTime s = Some z" and "z \<le> t"
  shows "z + 50 \<le> t \<or> lastInvokeTime s + 50 \<le> t"
  using assms by (auto simp: shouldInvoke_def throttle_wait_def)

lemma last_index:
  assumes "distinct (map snd H)" and "i < length H" and "snd (H ! i) = snd (last H)"
  shows "i = length H - 1"
proof -
  have "H \<noteq> []" using assms(2) by auto
  then have l: "last H = H ! (length H - 1)" by (simp add: last_conv_nth)
  have "(map snd H ! i = map snd H ! (length H - 1)) = (i = length H - 1)"
    using assms(1,2) by (intro nth_eq_iff_index_eq) auto
  moreover have "map snd H ! i = map snd H ! (length H - 1)"
    using assms(2,3) l by simp
  ultimately show ?thesis by blast
qed

lemma transmitted_in_history:
  assumes "inv_order H w" and "(a, X) \<in> set (wire w)"
  shows "X \<in> snd ` set H"
proof -
  from assms obtain x where "(x, X) \<in> set H" by (auto simp: inv_order_def)
  then show ?thesis by force
qed

lemma pending_not_transmitted:
  assumes "inv_pending H w" and "lastArgs (throttled w) = Some X" and "distinct (map snd H)"
  shows "X \<notin> set (transmitted w)"
proof
  assume x: "X \<in> set (transmitted w)"
  from assms(1,2) have H: "H \<noteq> []" and X: "X = snd (last H)"
    and s: "subseq (transmitted w) (map snd (butlast H))"
    by (auto simp: inv_pending_def)
  from s x have "X \<in> set (map snd (butlast H))"
    by (auto elim: list_emb_set)
  moreover from H have "map snd H = map snd (butlast H) @ [X]"
  proof -
    from H have "H = butlast H @ [last H]" by simp
    then have "map snd H = map snd (butlast H @ [last H])" by simp
    then show ?thesis using X by simp
  qed
  ultimately show False using assms(3) by auto
qed

lemma sorted_nth_le_last:
  assumes "sorted (map fst H)" and "i < length H"
  shows "fst (H ! i) \<le> fst (last H)"
proof -
  have "H \<noteq> []" using assms(2) by auto
  then have l: "last H = H ! (length H - 1)" by (simp add: last_conv_nth)
  have "map fst H ! i \<le> map fst H ! (length H - 1)"
    using assms by (intro sorted_nth_mono) auto
  with assms(2) l show ?thesis by simp
qed


text \<open>Each kind of step keeps the invariant.\<close>

lemma quiet_preserves:
  assumes "throttle_inv H w" and "clock w \<le> t" and "effect_of Quiet t w w'"
  shows "throttle_inv H w'"
proof -
  from assms(3) have e: "clock w' = t" "wire w' = wire w"
    "lastArgs (throttled w') = lastArgs (throttled w)"
    "lastInvokeTime (throttled w') = lastInvokeTime (throttled w)"
    "lastCallTime (throttled w') = lastCallTime (throttled w)"
    by (auto simp: effect_of_def)
  have tr: "transmitted w' = transmitted w" by (simp add: transmitted_def e)
  from assms(1) have it: "inv_times H w" and ip: "inv_pending H w" and io: "inv_order H w"
    and isp: "inv_spacing H w" by (auto simp: throttle_inv_def)
  from it assms(2) have 1: "inv_times H w'" by (auto simp: inv_times_def e)
  from ip have 2: "inv_pending H w'" by (simp add: inv_pending_def e tr)
  from io have 3: "inv_order H w'" by (simp add: inv_order_def e tr)
  from isp have 4: "inv_spacing H w'" by (simp add: inv_spacing_def e)
  from 1 2 3 4 show ?thesis by (simp add: throttle_inv_def)
qed

lemma defer_preserves:
  assumes inv: "throttle_inv H w" and t: "clock w \<le> t" and eff: "effect_of (Defer X) t w w'"
    and new: "X \<notin> snd ` set H"
  shows "throttle_inv (H @ [(t, X)]) w'"
proof -
  from eff have e: "clock w' = t" "wire w' = wire w" "lastArgs (throttled w') = Some X"
    "lastInvokeTime (throttled w') = lastInvokeTime (throttled w)"
    "lastCallTime (throttled w') = Some t"
    by (auto simp: effect_of_def)
  from inv have it: "inv_times H w" and ip: "inv_pending H w" and io: "inv_order H w"
    and isp: "inv_spacing H w" by (auto simp: throttle_inv_def)
  have tr: "transmitted w' = transmitted w" by (simp add: transmitted_def e)
  have "sorted (map fst (H @ [(t, X)]))"
  proof -
    have "\<forall>x \<in> set (map fst H). x \<le> t"
    proof
      fix x assume "x \<in> set (map fst H)"
      then obtain i where i: "i < length H" "x = fst (H ! i)"
        by (auto simp: in_set_conv_nth)
      with it have "x \<le> fst (last H)" by (auto simp: inv_times_def intro: sorted_nth_le_last)
      moreover from i it have "fst (last H) \<le> clock w" by (auto simp: inv_times_def)
      ultimately show "x \<le> t" using t by simp
    qed
    with it show ?thesis by (auto simp: inv_times_def sorted_append)
  qed
  with it t e have 1: "inv_times (H @ [(t, X)]) w'"
    by (auto simp: inv_times_def)
  have 2: "inv_pending (H @ [(t, X)]) w'"
    using it io t by (simp add: inv_pending_def inv_times_def inv_order_def e tr)
  have "subseq (transmitted w) (map snd H @ [X])"
    using io by (simp add: inv_order_def subseq_rev_drop_many)
  moreover have "\<forall>(a, Y) \<in> set (wire w). \<exists>x. (x, Y) \<in> set (H @ [(t, X)]) \<and> x \<le> a"
    using io by (fastforce simp: inv_order_def)
  ultimately have 3: "inv_order (H @ [(t, X)]) w'"
    by (simp add: inv_order_def e tr)
  have 4: "inv_spacing (H @ [(t, X)]) w'"
    unfolding inv_spacing_def
  proof (intro allI impI)
    fix i j a b
    assume a: "i < j \<and> j < length (H @ [(t, X)]) \<and>
        fst ((H @ [(t, X)]) ! j) < fst ((H @ [(t, X)]) ! i) + 50 \<and>
        (a, snd ((H @ [(t, X)]) ! i)) \<in> set (wire w') \<and>
        (b, snd ((H @ [(t, X)]) ! j)) \<in> set (wire w')"
    show "a + 50 \<le> b"
    proof (cases "j < length H")
      case True
      with a isp e show ?thesis
        by (auto simp: inv_spacing_def nth_append)
    next
      case False
      with a have "j = length H" by simp
      with a e have "(b, X) \<in> set (wire w)" by simp
      with io new show ?thesis using transmitted_in_history by blast
    qed
  qed
  from 1 2 3 4 show ?thesis by (simp add: throttle_inv_def)
qed

lemma history_sorted_append:
  assumes it: "inv_times H w" and t: "clock w \<le> t"
  shows "sorted (map fst (H @ [(t, X)]))"
proof -
  have "\<forall>x \<in> set (map fst H). x \<le> t"
  proof
    fix x assume "x \<in> set (map fst H)"
    then obtain i where i: "i < length H" "x = fst (H ! i)"
      by (auto simp: in_set_conv_nth)
    with it have "x \<le> fst (last H)" by (auto simp: inv_times_def intro: sorted_nth_le_last)
    moreover from i it have "fst (last H) \<le> clock w" by (auto simp: inv_times_def)
    ultimately show "x \<le> t" using t by simp
  qed
  with it show ?thesis by (auto simp: inv_times_def sorted_append)
qed

lemma transmit_call_preserves:
  assumes inv: "throttle_inv H w" and t: "clock w \<le> t"
    and eff: "effect_of (Transmit X) t w w'"
    and called: "lastCallTime (throttled w') = Some t"
    and should: "shouldInvoke (throttled w) t"
    and new: "X \<notin> snd ` set H"
  shows "throttle_inv (H @ [(t, X)]) w'"
proof -
  from eff have e: "clock w' = t" "wire w' = wire w @ [(t, X)]" "lastArgs (throttled w') = None"
    "lastInvokeTime (throttled w') = t"
    by (auto simp: effect_of_def)
  from inv have it: "inv_times H w" and ip: "inv_pending H w" and io: "inv_order H w"
    and isp: "inv_spacing H w" by (auto simp: throttle_inv_def)
  have tr: "transmitted w' = transmitted w @ [X]" by (simp add: transmitted_def e)
  have old: "\<And>a Y. (a, Y) \<in> set (wire w) \<Longrightarrow> a \<le> t"
  proof -
    fix a Y assume "(a, Y) \<in> set (wire w)"
    with it have "a \<le> lastInvokeTime (throttled w)" by (auto simp: inv_times_def)
    also from it have "\<dots> \<le> clock w" by (simp add: inv_times_def)
    finally show "a \<le> t" using t by simp
  qed
  have 1: "inv_times (H @ [(t, X)]) w'"
    using history_sorted_append [OF it t, of X] old
    by (auto simp: inv_times_def e called)
  have 2: "inv_pending (H @ [(t, X)]) w'"
    by (simp add: inv_pending_def e)
  have "\<forall>(a, Y) \<in> set (wire w). \<exists>x. (x, Y) \<in> set (H @ [(t, X)]) \<and> x \<le> a"
    using io by (fastforce simp: inv_order_def)
  then have 3: "inv_order (H @ [(t, X)]) w'"
    using io by (auto simp: inv_order_def e tr)
  have 4: "inv_spacing (H @ [(t, X)]) w'"
    unfolding inv_spacing_def
  proof (intro allI impI)
    fix i j a b
    assume a: "i < j \<and> j < length (H @ [(t, X)]) \<and>
        fst ((H @ [(t, X)]) ! j) < fst ((H @ [(t, X)]) ! i) + 50 \<and>
        (a, snd ((H @ [(t, X)]) ! i)) \<in> set (wire w') \<and>
        (b, snd ((H @ [(t, X)]) ! j)) \<in> set (wire w')"
    then have i: "i < length H" by simp
    then have Hi: "(H @ [(t, X)]) ! i = H ! i" by (simp add: nth_append)
    have "snd (H ! i) \<in> snd ` set H" using i by simp
    with new have "snd (H ! i) \<noteq> X" by metis
    with a Hi e have ai: "(a, snd (H ! i)) \<in> set (wire w)" by auto
    show "a + 50 \<le> b"
    proof (cases "j < length H")
      case True
      then have Hj: "(H @ [(t, X)]) ! j = H ! j" by (simp add: nth_append)
      have "snd (H ! j) \<in> snd ` set H" using True by simp
      with new have "snd (H ! j) \<noteq> X" by metis
      with a Hj e have "(b, snd (H ! j)) \<in> set (wire w)" by auto
      with a ai True Hi Hj isp show ?thesis
        unfolding inv_spacing_def by metis
    next
      case False
      with a have j: "j = length H" by simp
      then have Hj: "(H @ [(t, X)]) ! j = (t, X)" by simp
      have "(b, X) \<notin> set (wire w)"
        using io new transmitted_in_history by blast
      with a Hj e have b: "b = t" by auto
      from a Hi Hj have close: "t < fst (H ! i) + 50" by simp
      from i have ne: "H \<noteq> []" by auto
      with it have lc: "lastCallTime (throttled w) = Some (fst (last H))"
        and le: "fst (last H) \<le> clock w" by (auto simp: inv_times_def)
      from it i have "fst (H ! i) \<le> fst (last H)"
        by (auto simp: inv_times_def intro: sorted_nth_le_last)
      with close have "\<not> fst (last H) + 50 \<le> t" by simp
      with should_invoke_gap [OF should lc] le t
      have "lastInvokeTime (throttled w) + 50 \<le> t" by auto
      moreover from it ai have "a \<le> lastInvokeTime (throttled w)"
        by (auto simp: inv_times_def)
      ultimately show ?thesis using b by simp
    qed
  qed
  from 1 2 3 4 show ?thesis by (simp add: throttle_inv_def)
qed

lemma transmit_tick_preserves:
  assumes inv: "throttle_inv H w" and t: "clock w \<le> t"
    and eff: "effect_of (Transmit X) t w w'"
    and pend: "lastArgs (throttled w) = Some X"
    and called: "lastCallTime (throttled w') = lastCallTime (throttled w)"
    and should: "shouldInvoke (throttled w) t"
    and dist: "distinct (map snd H)"
  shows "throttle_inv H w'"
proof -
  from eff have e: "clock w' = t" "wire w' = wire w @ [(t, X)]" "lastArgs (throttled w') = None"
    "lastInvokeTime (throttled w') = t"
    by (auto simp: effect_of_def)
  from inv have it: "inv_times H w" and ip: "inv_pending H w" and io: "inv_order H w"
    and isp: "inv_spacing H w" by (auto simp: throttle_inv_def)
  have tr: "transmitted w' = transmitted w @ [X]" by (simp add: transmitted_def e)
  from ip pend have ne: "H \<noteq> []" and X: "X = snd (last H)"
    and L: "lastInvokeTime (throttled w) \<le> fst (last H)"
    and sub: "subseq (transmitted w) (map snd (butlast H))"
    by (auto simp: inv_pending_def)
  from ne it have lc: "lastCallTime (throttled w) = Some (fst (last H))"
    and le: "fst (last H) \<le> clock w" by (auto simp: inv_times_def)
  have fresh: "X \<notin> set (transmitted w)"
    using pending_not_transmitted [OF ip pend dist] .
  have old: "\<And>a Y. (a, Y) \<in> set (wire w) \<Longrightarrow> a \<le> t"
  proof -
    fix a Y assume "(a, Y) \<in> set (wire w)"
    with it have "a \<le> lastInvokeTime (throttled w)" by (auto simp: inv_times_def)
    also from it have "\<dots> \<le> clock w" by (simp add: inv_times_def)
    finally show "a \<le> t" using t by simp
  qed
  have 1: "inv_times H w'"
    using it old t by (auto simp: inv_times_def e called)
  have 2: "inv_pending H w'"
    by (simp add: inv_pending_def e)
  have "map snd H = map snd (butlast H) @ [X]"
  proof -
    from ne have "H = butlast H @ [last H]" by simp
    then have "map snd H = map snd (butlast H @ [last H])" by simp
    then show ?thesis using X by simp
  qed
  with sub have s: "subseq (transmitted w @ [X]) (map snd H)" by simp
  have "(fst (last H), X) \<in> set H" using ne X by (metis last_in_set prod.collapse)
  moreover have "fst (last H) \<le> t" using le t by simp
  ultimately have "\<exists>x. (x, X) \<in> set H \<and> x \<le> t" by blast
  with io s have 3: "inv_order H w'"
    by (auto simp: inv_order_def e tr)
  have 4: "inv_spacing H w'"
    unfolding inv_spacing_def
  proof (intro allI impI)
    fix i j a b
    assume a: "i < j \<and> j < length H \<and> fst (H ! j) < fst (H ! i) + 50 \<and>
        (a, snd (H ! i)) \<in> set (wire w') \<and> (b, snd (H ! j)) \<in> set (wire w')"
    then have i: "i < length H" and j: "j < length H" by auto
    have "snd (H ! i) \<noteq> X"
    proof
      assume "snd (H ! i) = X"
      with X last_index [OF dist i] have "i = length H - 1" by simp
      moreover from a have "i < j" "j < length H" by auto
      ultimately show False by simp
    qed
    with a e have ai: "(a, snd (H ! i)) \<in> set (wire w)" by auto
    show "a + 50 \<le> b"
    proof (cases "(b, snd (H ! j)) \<in> set (wire w)")
      case True
      with a ai isp show ?thesis unfolding inv_spacing_def by metis
    next
      case False
      with a e have b: "b = t" and "snd (H ! j) = X" by auto
      from it ai have "a \<le> lastInvokeTime (throttled w)"
        by (auto simp: inv_times_def)
      moreover from should_invoke_gap [OF should lc] le t L
      have "lastInvokeTime (throttled w) + 50 \<le> t" by auto
      ultimately show ?thesis using b by simp
    qed
  qed
  from 1 2 3 4 show ?thesis by (simp add: throttle_inv_def)
qed

lemma calls_of_append: "calls_of (xs @ ys) = calls_of xs @ calls_of ys"
  by (induction xs rule: calls_of.induct) simp_all

lemma run_append: "run (xs @ ys) w = run ys (run xs w)"
  by (simp add: run_def)

lemma run_Cons: "run (x # xs) w = run xs (step x w)"
  by (simp add: run_def)

lemma clock_step: "clock (step (t, e) w) = t"
proof (cases e)
  case (Call args)
  with step_call [of w t args] show ?thesis
    by (auto simp: effect_of_def split: if_splits)
next
  case Tick
  with step_tick [of w t] show ?thesis
    by (auto simp: effect_of_def)
qed

lemma step_preserves:
  assumes inv: "throttle_inv H w" and t: "clock w \<le> t"
    and dist: "distinct (map snd (H @ calls_of [(t, e)]))"
  shows "throttle_inv (H @ calls_of [(t, e)]) (step (t, e) w)"
proof (cases e)
  case (Call args)
  with dist have new: "args \<notin> snd ` set H" by auto
  show ?thesis
  proof (cases "shouldInvoke (throttled w) t")
    case True
    with step_call [of w t args]
    have "effect_of (Transmit args) t w (step (t, Call args) w)"
      and "lastCallTime (throttled (step (t, Call args) w)) = Some t" by simp_all
    from transmit_call_preserves [OF inv t this True new] Call show ?thesis by simp
  next
    case False
    with step_call [of w t args]
    have "effect_of (Defer args) t w (step (t, Call args) w)" by simp
    from defer_preserves [OF inv t this new] Call show ?thesis by simp
  qed
next
  case Tick
  from dist Tick have d: "distinct (map snd H)" by simp
  from step_tick [of w t] show ?thesis
  proof
    assume "\<exists>X. lastArgs (throttled w) = Some X \<and> shouldInvoke (throttled w) t \<and>
        effect_of (Transmit X) t w (step (t, Tick) w) \<and>
        lastCallTime (throttled (step (t, Tick) w)) = lastCallTime (throttled w)"
    then obtain X where "lastArgs (throttled w) = Some X" "shouldInvoke (throttled w) t"
      "effect_of (Transmit X) t w (step (t, Tick) w)"
      "lastCallTime (throttled (step (t, Tick) w)) = lastCallTime (throttled w)" by blast
    from transmit_tick_preserves [OF inv t this(3) this(1) this(4) this(2) d] Tick
    show ?thesis by simp
  next
    assume "effect_of Quiet t w (step (t, Tick) w)"
    from quiet_preserves [OF inv t this] Tick show ?thesis by simp
  qed
qed

lemma run_preserves:
  assumes "throttle_inv H w" and "ascending (clock w) script"
    and "distinct (map snd (H @ calls_of script))"
  shows "throttle_inv (H @ calls_of script) (run script w)"
  using assms
proof (induction script arbitrary: H w)
  case Nil
  then show ?case by (simp add: run_def)
next
  case (Cons x script)
  obtain t e where x: "x = (t, e)" by (cases x)
  have c: "calls_of (x # script) = calls_of [(t, e)] @ calls_of script"
    using calls_of_append [of "[x]" script] x by simp
  have r: "run (x # script) w = run script (step (t, e) w)" by (simp add: x run_Cons)
  from Cons.prems x have t: "clock w \<le> t" and asc: "ascending t script" by simp_all
  from Cons.prems(3) c
  have d2: "distinct (map snd ((H @ calls_of [(t, e)]) @ calls_of script))" by simp
  then have d1: "distinct (map snd (H @ calls_of [(t, e)]))"
    by auto
  have "throttle_inv (H @ calls_of [(t, e)]) (step (t, e) w)"
    using step_preserves [OF Cons.prems(1) t d1] .
  moreover have "ascending (clock (step (t, e) w)) script"
    using asc by (simp add: clock_step)
  ultimately have "throttle_inv ((H @ calls_of [(t, e)]) @ calls_of script) (run script (step (t, e) w))"
    using d2 by (rule Cons.IH)
  then show ?case unfolding c r by simp
qed

lemma boot_inv: "throttle_inv [] (boot t)"
  by (simp add: throttle_inv_def inv_times_def inv_pending_def inv_order_def inv_spacing_def
      boot_def transmitted_def)

lemma run_boot_inv:
  assumes "ascending t script" and "distinct (map snd (calls_of script))"
  shows "throttle_inv (calls_of script) (run script (boot t))"
proof -
  have "ascending (clock (boot t)) script" using assms(1) by (simp add: boot_def)
  from run_preserves [OF boot_inv this] assms(2) show ?thesis by simp
qed

text \<open>
  What can still be transmitted: a frame already transmitted, the waiting call, or a
  call to come.
\<close>

lemma step_transmits:
  "set (transmitted (step (t, e) w)) \<union> pending (step (t, e) w)
     \<subseteq> set (transmitted w) \<union> pending w \<union> snd ` set (calls_of [(t, e)])"
proof (cases e)
  case (Call args)
  with step_call [of w t args] show ?thesis
    by (auto simp: effect_of_def transmitted_def pending_def split: if_splits)
next
  case Tick
  with step_tick [of w t] show ?thesis
    by (auto simp: effect_of_def transmitted_def pending_def)
qed

lemma run_transmits:
  "set (transmitted (run script w)) \<union> pending (run script w)
     \<subseteq> set (transmitted w) \<union> pending w \<union> snd ` set (calls_of script)"
proof (induction script arbitrary: w)
  case Nil
  then show ?case by (simp add: run_def)
next
  case (Cons x script)
  obtain t e where x: "x = (t, e)" by (cases x)
  have c: "calls_of ((t, e) # script) = calls_of [(t, e)] @ calls_of script"
    using calls_of_append [of "[(t, e)]" script] by simp
  from Cons.IH [of "step (t, e) w"] step_transmits [of t e w]
  show ?case unfolding x c run_Cons set_append image_Un by blast
qed

lemma call_supersedes:
  "set (transmitted (step (t, Call Z) w)) \<union> pending (step (t, Call Z) w)
     \<subseteq> set (transmitted w) \<union> {Z}"
  using step_call [of w t Z]
  by (auto simp: effect_of_def transmitted_def pending_def split: if_splits)

lemma superseded_never_transmitted:
  assumes "script = pre @ (x, Call X) # mid @ (z, Call Z) # post"
    and "distinct (map snd (calls_of script))"
    and "X \<notin> set (transmitted (run (pre @ (x, Call X) # mid) w))"
  shows "X \<notin> set (transmitted (run script w))"
proof -
  let ?w1 = "run (pre @ (x, Call X) # mid) w"
  have s: "script = (pre @ (x, Call X) # mid) @ (z, Call Z) # post" using assms(1) by simp
  have r: "run script w = run post (step (z, Call Z) ?w1)"
    unfolding s run_append run_Cons ..
  have "calls_of script = calls_of pre @ (x, X) # calls_of mid @ (z, Z) # calls_of post"
    unfolding assms(1) calls_of_append by (simp add: calls_of_append)
  with assms(2) have "X \<noteq> Z" "X \<notin> snd ` set (calls_of post)" by auto
  with run_transmits [of post "step (z, Call Z) ?w1"] call_supersedes [of z Z ?w1] assms(3)
  show ?thesis unfolding r by auto
qed

text \<open>
  A timer that is due always invokes, so a waiting call is transmitted on the first turn
  of the loop at or after the time its timer is due.
\<close>

lemma due_timer_invokes:
  assumes "inv_timer H w" and "timerId (throttled w) = Some due" and "due \<le> t"
  shows "shouldInvoke (throttled w) t"
proof -
  from assms have "lastInvokeTime (throttled w) + 50 \<le> t" by (auto simp: inv_timer_def)
  then show ?thesis by (auto simp: shouldInvoke_def throttle_wait_def split: option.splits)
qed

lemma timer_step_preserves:
  assumes it: "inv_times H w" and tm: "inv_timer H w" and t: "clock w \<le> t"
  shows "inv_timer (H @ calls_of [(t, e)]) (step (t, e) w)"
proof (cases e)
  case (Call args)
  let ?w = "w\<lparr>clock := t\<rparr>"
  from it t have L: "lastInvokeTime (throttled w) \<le> t" by (simp add: inv_times_def)
  show ?thesis
  proof (cases "shouldInvoke (throttled w) t")
    case True
    then have "shouldInvoke (throttled ?w) (clock ?w)" by simp
    from send_invoking [OF this, of args] Call show ?thesis
      by (simp add: inv_timer_def)
  next
    case False
    then have "\<not> shouldInvoke (throttled ?w) (clock ?w)" by simp
    from send_deferring [OF this, of args] Call tm t L show ?thesis
      by (auto simp: inv_timer_def split: option.splits)
  qed
next
  case Tick
  let ?w = "w\<lparr>clock := t\<rparr>"
  show ?thesis
  proof (cases "timerId (throttled w)")
    case None
    with Tick tm t show ?thesis by (auto simp: inv_timer_def)
  next
    case (Some due)
    show ?thesis
    proof (cases "due \<le> t")
      case False
      with Some Tick tm t show ?thesis by (auto simp: inv_timer_def)
    next
      case True
      from due_timer_invokes [OF tm Some True]
      have s: "shouldInvoke (throttled ?w) (clock ?w)" by simp
      show ?thesis
      proof (cases "lastArgs (throttled w)")
        case None
        then have "lastArgs (throttled ?w) = None" by simp
        from timerExpired_idle [OF s this] Some True Tick show ?thesis
          by (simp add: inv_timer_def)
      next
        case args: (Some X)
        then have "lastArgs (throttled ?w) = Some X" by simp
        from timerExpired_invoking [OF s this] Some True Tick show ?thesis
          by (simp add: inv_timer_def)
      qed
    qed
  qed
qed

lemma timer_run_preserves:
  assumes "throttle_inv H w" and "inv_timer H w" and "ascending (clock w) script"
    and "distinct (map snd (H @ calls_of script))"
  shows "inv_timer (H @ calls_of script) (run script w)"
  using assms
proof (induction script arbitrary: H w)
  case Nil
  then show ?case by (simp add: run_def)
next
  case (Cons x script)
  obtain t e where x: "x = (t, e)" by (cases x)
  have c: "calls_of (x # script) = calls_of [(t, e)] @ calls_of script"
    using calls_of_append [of "[x]" script] x by simp
  have r: "run (x # script) w = run script (step (t, e) w)" by (simp add: x run_Cons)
  from Cons.prems x have t: "clock w \<le> t" and asc: "ascending t script" by simp_all
  from Cons.prems(4) c
  have d2: "distinct (map snd ((H @ calls_of [(t, e)]) @ calls_of script))" by simp
  then have d1: "distinct (map snd (H @ calls_of [(t, e)]))" by auto
  from Cons.prems(1) have it: "inv_times H w" by (simp add: throttle_inv_def)
  have "throttle_inv (H @ calls_of [(t, e)]) (step (t, e) w)"
    using step_preserves [OF Cons.prems(1) t d1] .
  moreover have "inv_timer (H @ calls_of [(t, e)]) (step (t, e) w)"
    using timer_step_preserves [OF it Cons.prems(2) t] .
  moreover have "ascending (clock (step (t, e) w)) script"
    using asc by (simp add: clock_step)
  ultimately have "inv_timer ((H @ calls_of [(t, e)]) @ calls_of script) (run script (step (t, e) w))"
    using d2 by (rule Cons.IH)
  then show ?case unfolding c r by simp
qed

lemma boot_timer: "inv_timer [] (boot t)"
  by (simp add: inv_timer_def boot_def)

lemma run_boot_timer:
  assumes "ascending t script" and "distinct (map snd (calls_of script))"
  shows "inv_timer (calls_of script) (run script (boot t))"
proof -
  have "ascending (clock (boot t)) script" using assms(1) by (simp add: boot_def)
  from timer_run_preserves [OF boot_inv boot_timer this] assms(2) show ?thesis by simp
qed

lemma ascending_prefix: "ascending t (pre @ post) \<Longrightarrow> ascending t pre"
  by (induction pre arbitrary: t) auto

lemma waiting_call_transmitted:
  assumes asc: "ascending t script" and dist: "distinct (map snd (calls_of script))"
    and script: "script = pre @ [(t', Tick)]"
    and waits: "lastArgs (throttled (run pre (boot t))) = Some X"
    and timer: "timerId (throttled (run pre (boot t))) = Some due" and due: "due \<le> t'"
  shows "wire (run script (boot t)) = wire (run pre (boot t)) @ [(t', X)]"
proof -
  let ?w = "run pre (boot t)"
  let ?v = "?w\<lparr>clock := t'\<rparr>"
  from asc script have a: "ascending t pre" using ascending_prefix by blast
  from dist script have d: "distinct (map snd (calls_of pre))"
    by (simp add: calls_of_append)
  from due_timer_invokes [OF run_boot_timer [OF a d] timer due]
  have s: "shouldInvoke (throttled ?v) (clock ?v)" by simp
  from waits have "lastArgs (throttled ?v) = Some X" by simp
  from timerExpired_invoking [OF s this] timer due
  have "step (t', Tick) ?w = ?w\<lparr>clock := t',
      throttled := (throttled ?w)
          \<lparr>lastArgs := None, last_result := Some (length (wire ?w)),
           timerId := None, lastInvokeTime := t'\<rparr>,
       wire := wire ?w @ [(t', X)]\<rparr>"
    by simp
  then show ?thesis unfolding script run_append by (simp add: run_def)
qed

lemma waiting_call_has_timer:
  assumes asc: "ascending t script" and dist: "distinct (map snd (calls_of script))"
    and waits: "lastArgs (throttled (run script (boot t))) = Some X"
  shows "\<exists>due x. timerId (throttled (run script (boot t))) = Some due \<and>
           calls_of script \<noteq> [] \<and> last (calls_of script) = (x, X) \<and> due \<le> x + 50"
proof -
  from run_boot_timer [OF asc dist] waits
  obtain due where "timerId (throttled (run script (boot t))) = Some due"
    and "calls_of script \<noteq> []" and "due \<le> fst (last (calls_of script)) + 50"
    unfolding inv_timer_def by blast
  moreover from run_boot_inv [OF asc dist] waits
  have "X = snd (last (calls_of script))"
    unfolding throttle_inv_def inv_pending_def by blast
  ultimately show ?thesis
    by (intro exI [of _ due] exI [of _ "fst (last (calls_of script))"]) simp
qed

text \<open>
  A call is transmitted at once when it is the first call, or comes 50 ms or more after
  the call before it or after the last transmission; any other call is kept waiting. A
  turn of the loop on which nothing waits, or the timer is not due, transmits nothing.
\<close>

lemma last_step_preserves:
  assumes it: "inv_times H w" and il: "inv_last H w"
  shows "inv_last (H @ calls_of [(t, e)]) (step (t, e) w)"
proof (cases e)
  case (Call args)
  show ?thesis
  proof (cases "shouldInvoke (throttled w) t")
    case True
    with step_call [of w t args] Call show ?thesis
      by (simp add: effect_of_def inv_last_def)
  next
    case False
    then have "lastCallTime (throttled w) \<noteq> None"
      by (auto simp: shouldInvoke_def split: option.splits)
    with it have "H \<noteq> []" by (auto simp: inv_times_def)
    with step_call [of w t args] Call False il show ?thesis
      by (simp add: effect_of_def inv_last_def)
  qed
next
  case Tick
  with step_tick [of w t] il show ?thesis
    by (auto simp: effect_of_def inv_last_def)
qed

lemma last_run_preserves:
  assumes "throttle_inv H w" and "inv_last H w" and "ascending (clock w) script"
    and "distinct (map snd (H @ calls_of script))"
  shows "inv_last (H @ calls_of script) (run script w)"
  using assms
proof (induction script arbitrary: H w)
  case Nil
  then show ?case by (simp add: run_def)
next
  case (Cons x script)
  obtain t e where x: "x = (t, e)" by (cases x)
  have c: "calls_of (x # script) = calls_of [(t, e)] @ calls_of script"
    using calls_of_append [of "[x]" script] x by simp
  have r: "run (x # script) w = run script (step (t, e) w)" by (simp add: x run_Cons)
  from Cons.prems x have t: "clock w \<le> t" and asc: "ascending t script" by simp_all
  from Cons.prems(4) c
  have d2: "distinct (map snd ((H @ calls_of [(t, e)]) @ calls_of script))" by simp
  then have d1: "distinct (map snd (H @ calls_of [(t, e)]))" by auto
  from Cons.prems(1) have it: "inv_times H w" by (simp add: throttle_inv_def)
  have "throttle_inv (H @ calls_of [(t, e)]) (step (t, e) w)"
    using step_preserves [OF Cons.prems(1) t d1] .
  moreover have "inv_last (H @ calls_of [(t, e)]) (step (t, e) w)"
    using last_step_preserves [OF it Cons.prems(2)] .
  moreover have "ascending (clock (step (t, e) w)) script"
    using asc by (simp add: clock_step)
  ultimately have "inv_last ((H @ calls_of [(t, e)]) @ calls_of script) (run script (step (t, e) w))"
    using d2 by (rule Cons.IH)
  then show ?case unfolding c r by simp
qed

lemma boot_last: "inv_last [] (boot t)"
  by (simp add: inv_last_def boot_def)

lemma run_boot_last:
  assumes "ascending t script" and "distinct (map snd (calls_of script))"
  shows "inv_last (calls_of script) (run script (boot t))"
proof -
  have "ascending (clock (boot t)) script" using assms(1) by (simp add: boot_def)
  from last_run_preserves [OF boot_inv boot_last this] assms(2) show ?thesis by simp
qed

lemma call_transmitted_or_waiting:
  assumes asc: "ascending t script" and dist: "distinct (map snd (calls_of script))"
    and script: "script = pre @ [(t', Call X)]"
  shows "if calls_of pre = [] \<or> fst (last (calls_of pre)) + 50 \<le> t' \<or>
            (wire (run pre (boot t)) \<noteq> [] \<and> fst (last (wire (run pre (boot t)))) + 50 \<le> t')
         then wire (run script (boot t)) = wire (run pre (boot t)) @ [(t', X)] \<and>
              lastArgs (throttled (run script (boot t))) = None
         else wire (run script (boot t)) = wire (run pre (boot t)) \<and>
              lastArgs (throttled (run script (boot t))) = Some X"
proof -
  let ?w = "run pre (boot t)"
  let ?H = "calls_of pre"
  from asc script have a: "ascending t pre" using ascending_prefix by blast
  from dist script have d: "distinct (map snd ?H)"
    by (simp add: calls_of_append)
  from run_boot_inv [OF a d] have it: "inv_times ?H ?w" by (simp add: throttle_inv_def)
  from run_boot_last [OF a d] have il: "inv_last ?H ?w" .
  from run_boot_inv [OF asc dist] have "sorted (map fst (calls_of script))"
    by (simp add: throttle_inv_def inv_times_def)
  then have le: "?H \<noteq> [] \<Longrightarrow> fst (last ?H) \<le> t'"
    unfolding script calls_of_append by (simp add: sorted_append)
  have r: "run script (boot t) = step (t', Call X) ?w"
    unfolding script run_append by (simp add: run_def)
  have s: "shouldInvoke (throttled ?w) t' \<longleftrightarrow>
      (?H = [] \<or> fst (last ?H) + 50 \<le> t' \<or>
       (wire ?w \<noteq> [] \<and> fst (last (wire ?w)) + 50 \<le> t'))"
  proof (cases "?H = []")
    case True
    with it show ?thesis by (simp add: inv_times_def shouldInvoke_def)
  next
    case False
    with il have "wire ?w \<noteq> []" "lastInvokeTime (throttled ?w) = fst (last (wire ?w))"
      by (simp_all add: inv_last_def)
    with it False le show ?thesis
      by (auto simp: inv_times_def shouldInvoke_def throttle_wait_def)
  qed
  from step_call [of ?w t' X] show ?thesis
    unfolding r s [symmetric] by (simp add: effect_of_def split: if_splits)
qed

lemma idle_turn:
  assumes script: "script = pre @ [(t', Tick)]"
    and idle: "lastArgs (throttled (run pre w)) = None \<or>
               (\<exists>due. timerId (throttled (run pre w)) = Some due \<and> t' < due)"
  shows "wire (run script w) = wire (run pre w) \<and>
         lastArgs (throttled (run script w)) = lastArgs (throttled (run pre w))"
proof -
  let ?w = "run pre w"
  have r: "run script w = step (t', Tick) ?w"
    unfolding script run_append by (simp add: run_def)
  from idle show ?thesis
  proof
    assume "lastArgs (throttled ?w) = None"
    with step_tick [of ?w t'] show ?thesis unfolding r by (auto simp: effect_of_def)
  next
    assume "\<exists>due. timerId (throttled ?w) = Some due \<and> t' < due"
    then show ?thesis unfolding r by auto
  qed
qed

lemma burst_run:
  "run burst (boot 1000) =
     \<lparr>clock = 1100, nextByte_value = 0, random_calls = 0,
      throttled = \<lparr>lastArgs = None, last_result = Some 1, timerId = None,
                   lastCallTime = Some 1020, lastInvokeTime = 1050\<rparr>,
      wire = [(1000, frame_A), (1050, frame_C)], emitters = 0, listeners = [], binds = [],
      timeouts = [], exchanges = 0, uncaught = []\<rparr>"
  by (simp add: burst_def run_def boot_def send_def shouldInvoke_def Let_def leadingEdge_def
      invokeFunc_def sendPromise_def setTimeout_due_def throttle_wait_def timerExpired_def
      trailingEdge_def frame_A_def frame_B_def frame_C_def)

lemma two_calls_run:
  "run two_calls (boot 1000) =
     \<lparr>clock = 1010, nextByte_value = 0, random_calls = 0,
      throttled = \<lparr>lastArgs = Some frame_B, last_result = Some 0, timerId = Some 1050,
                   lastCallTime = Some 1010, lastInvokeTime = 1000\<rparr>,
      wire = [(1000, frame_A)], emitters = 0, listeners = [], binds = [],
      timeouts = [], exchanges = 0, uncaught = []\<rparr>"
  by (simp add: two_calls_def run_def boot_def send_def shouldInvoke_def Let_def leadingEdge_def
      invokeFunc_def sendPromise_def setTimeout_due_def throttle_wait_def
      frame_A_def frame_B_def)

text \<open>
  Claim C1, as stated, fails: of three calls within 20 ms the first is transmitted at
  once and the third 50 ms later. The second, the later call of a pair issued 10 ms
  apart, is not delayed but dropped: it is never transmitted, and after the timer has
  fired nothing waits and no timer is set.
\<close>

theorem superseded_call_counterexample:
  "wire (run burst (boot 1000)) = [(1000, frame_A), (1050, frame_C)] \<and>
   frame_B \<notin> set (transmitted (run burst (boot 1000))) \<and>
   lastArgs (throttled (run burst (boot 1000))) = None \<and>
   timerId (throttled (run burst (boot 1000))) = None"
  by (simp add: burst_run transmitted_def) (simp add: frame_A_def frame_B_def frame_C_def)

text \<open>
  Claim C1, amended. For every script of calls and timer turns whose times never go back
  and whose calls carry different frames: the frames transmitted are a subsequence of
  the frames of the calls, in call order; no frame is transmitted before its call; when
  two calls are less than 50 ms apart and both are transmitted, the later one is
  transmitted at least 50 ms after the earlier one; a call that has not been transmitted
  when a later call arrives is never transmitted; a call that waits is the last call
  and has a timer due at most 50 ms after it; on the first turn of the loop at or
  after that time the waiting call is transmitted; a call is transmitted at once, and
  nothing waits, when it is the first call or comes 50 ms or more after the call before
  it or after the last transmission, and otherwise it is transmitted not yet and is the
  call that waits; and a turn of the loop on which nothing waits, or the timer is not
  due, transmits nothing and leaves waiting what waits.
\<close>

theorem throttled_transport:
  assumes "ascending t script" and "distinct (map snd (calls_of script))"
  shows "subseq (transmitted (run script (boot t))) (map snd (calls_of script)) \<and>
    (\<forall>(a, X) \<in> set (wire (run script (boot t))). \<exists>x. (x, X) \<in> set (calls_of script) \<and> x \<le> a) \<and>
    (\<forall>i j a b. i < j \<and> j < length (calls_of script) \<and>
        fst (calls_of script ! j) < fst (calls_of script ! i) + 50 \<and>
        (a, snd (calls_of script ! i)) \<in> set (wire (run script (boot t))) \<and>
        (b, snd (calls_of script ! j)) \<in> set (wire (run script (boot t))) \<longrightarrow> a + 50 \<le> b) \<and>
    (\<forall>pre x X mid z Z post. script = pre @ (x, Call X) # mid @ (z, Call Z) # post \<and>
        X \<notin> set (transmitted (run (pre @ (x, Call X) # mid) (boot t))) \<longrightarrow>
        X \<notin> set (transmitted (run script (boot t)))) \<and>
    (\<forall>X. lastArgs (throttled (run script (boot t))) = Some X \<longrightarrow>
        (\<exists>due x. timerId (throttled (run script (boot t))) = Some due \<and>
           calls_of script \<noteq> [] \<and> last (calls_of script) = (x, X) \<and> due \<le> x + 50)) \<and>
    (\<forall>pre t' X due. script = pre @ [(t', Tick)] \<and>
        lastArgs (throttled (run pre (boot t))) = Some X \<and>
        timerId (throttled (run pre (boot t))) = Some due \<and> due \<le> t' \<longrightarrow>
        wire (run script (boot t)) = wire (run pre (boot t)) @ [(t', X)]) \<and>
    (\<forall>pre t' X. script = pre @ [(t', Call X)] \<longrightarrow>
        (if calls_of pre = [] \<or> fst (last (calls_of pre)) + 50 \<le> t' \<or>
            (wire (run pre (boot t)) \<noteq> [] \<and> fst (last (wire (run pre (boot t)))) + 50 \<le> t')
         then wire (run script (boot t)) = wire (run pre (boot t)) @ [(t', X)] \<and>
              lastArgs (throttled (run script (boot t))) = None
         else wire (run script (boot t)) = wire (run pre (boot t)) \<and>
              lastArgs (throttled (run script (boot t))) = Some X)) \<and>
    (\<forall>pre t'. script = pre @ [(t', Tick)] \<and>
        (lastArgs (throttled (run pre (boot t))) = None \<or>
         (\<exists>due. timerId (throttled (run pre (boot t))) = Some due \<and> t' < due)) \<longrightarrow>
        wire (run script (boot t)) = wire (run pre (boot t)) \<and>
        lastArgs (throttled (run script (boot t))) = lastArgs (throttled (run pre (boot t))))"
proof -
  from run_boot_inv [OF assms]
  have "inv_order (calls_of script) (run script (boot t))"
    and "inv_spacing (calls_of script) (run script (boot t))"
    by (simp_all add: throttle_inv_def)
  then have "subseq (transmitted (run script (boot t))) (map snd (calls_of script)) \<and>
    (\<forall>(a, X) \<in> set (wire (run script (boot t))). \<exists>x. (x, X) \<in> set (calls_of script) \<and> x \<le> a) \<and>
    (\<forall>i j a b. i < j \<and> j < length (calls_of script) \<and>
        fst (calls_of script ! j) < fst (calls_of script ! i) + 50 \<and>
        (a, snd (calls_of script ! i)) \<in> set (wire (run script (boot t))) \<and>
        (b, snd (calls_of script ! j)) \<in> set (wire (run script (boot t))) \<longrightarrow> a + 50 \<le> b)"
    unfolding inv_order_def inv_spacing_def by blast
  moreover have "\<forall>pre x X mid z Z post. script = pre @ (x, Call X) # mid @ (z, Call Z) # post \<and>
        X \<notin> set (transmitted (run (pre @ (x, Call X) # mid) (boot t))) \<longrightarrow>
        X \<notin> set (transmitted (run script (boot t)))"
    using superseded_never_transmitted [OF _ assms(2)] by blast
  moreover have "\<forall>X. lastArgs (throttled (run script (boot t))) = Some X \<longrightarrow>
        (\<exists>due x. timerId (throttled (run script (boot t))) = Some due \<and>
           calls_of script \<noteq> [] \<and> last (calls_of script) = (x, X) \<and> due \<le> x + 50)"
    using waiting_call_has_timer [OF assms] by blast
  moreover have "\<forall>pre t' X due. script = pre @ [(t', Tick)] \<and>
        lastArgs (throttled (run pre (boot t))) = Some X \<and>
        timerId (throttled (run pre (boot t))) = Some due \<and> due \<le> t' \<longrightarrow>
        wire (run script (boot t)) = wire (run pre (boot t)) @ [(t', X)]"
    using waiting_call_transmitted [OF assms] by blast
  moreover have "\<forall>pre t' X. script = pre @ [(t', Call X)] \<longrightarrow>
        (if calls_of pre = [] \<or> fst (last (calls_of pre)) + 50 \<le> t' \<or>
            (wire (run pre (boot t)) \<noteq> [] \<and> fst (last (wire (run pre (boot t)))) + 50 \<le> t')
         then wire (run script (boot t)) = wire (run pre (boot t)) @ [(t', X)] \<and>
              lastArgs (throttled (run script (boot t))) = None
         else wire (run script (boot t)) = wire (run pre (boot t)) \<and>
              lastArgs (throttled (run script (boot t))) = Some X)"
    using call_transmitted_or_waiting [OF assms] by blast
  moreover have "\<forall>pre t'. script = pre @ [(t', Tick)] \<and>
        (lastArgs (throttled (run pre (boot t))) = None \<or>
         (\<exists>due. timerId (throttled (run pre (boot t))) = Some due \<and> t' < due)) \<longrightarrow>
        wire (run script (boot t)) = wire (run pre (boot t)) \<and>
        lastArgs (throttled (run script (boot t))) = lastArgs (throttled (run pre (boot t)))"
    using idle_turn [of script _ _ "boot t"] by blast
  ultimately show ?thesis by blast
qed

theorem throttled_transport_witness:
  "ascending 1000 burst \<and> distinct (map snd (calls_of burst)) \<and>
   subseq (transmitted (run burst (boot 1000))) [frame_A, frame_B, frame_C] \<and>
   transmitted (run burst (boot 1000)) = [frame_A, frame_C] \<and>
   (\<exists>x. (x, frame_C) \<in> set (calls_of burst) \<and> x \<le> 1050) \<and>
   (1000, frame_A) \<in> set (wire (run burst (boot 1000))) \<and>
   (1050, frame_C) \<in> set (wire (run burst (boot 1000))) \<and>
   fst (calls_of burst ! 2) < fst (calls_of burst ! 0) + 50 \<and>
   (1000::nat) + 50 \<le> 1050 \<and>
   frame_B \<notin> set (transmitted (run two_calls (boot 1000))) \<and>
   frame_B \<notin> set (transmitted (run burst (boot 1000))) \<and>
   ascending 1000 (two_calls @ [(1050, Tick)]) \<and>
   distinct (map snd (calls_of (two_calls @ [(1050, Tick)]))) \<and>
   lastArgs (throttled (run two_calls (boot 1000))) = Some frame_B \<and>
   timerId (throttled (run two_calls (boot 1000))) = Some 1050 \<and>
   last (calls_of two_calls) = (1010, frame_B) \<and>
   (1050::nat) \<le> 1010 + 50 \<and>
   wire (run (two_calls @ [(1050, Tick)]) (boot 1000)) = [(1000, frame_A), (1050, frame_B)] \<and>
   wire (run [(1000, Call frame_A)] (boot 1000)) = [(1000, frame_A)] \<and>
   lastArgs (throttled (run [(1000, Call frame_A)] (boot 1000))) = None \<and>
   wire (run two_calls (boot 1000)) = [(1000, frame_A)] \<and>
   ascending 1000 (two_calls @ [(1030, Tick)]) \<and>
   distinct (map snd (calls_of (two_calls @ [(1030, Tick)]))) \<and>
   wire (run (two_calls @ [(1030, Tick)]) (boot 1000)) = [(1000, frame_A)] \<and>
   lastArgs (throttled (run (two_calls @ [(1030, Tick)]) (boot 1000))) = Some frame_B \<and>
   ascending 1000 interrupted \<and> distinct (map snd (calls_of interrupted)) \<and>
   frame_B \<notin> set (transmitted (run interrupted (boot 1000)))"
proof -
  have asc: "ascending 1000 burst" by (simp add: burst_def)
  have calls: "calls_of burst = [(1000, frame_A), (1010, frame_B), (1020, frame_C)]"
    by (simp add: burst_def)
  have ne: "frame_A \<noteq> frame_B" "frame_A \<noteq> frame_C" "frame_B \<noteq> frame_C"
    by (simp_all add: frame_A_def frame_B_def frame_C_def)
  have dist: "distinct (map snd (calls_of burst))"
    unfolding calls using ne by simp
  have w: "wire (run burst (boot 1000)) = [(1000, frame_A), (1050, frame_C)]"
    by (simp add: burst_run)
  have split: "burst = [(1000, Call frame_A)] @ (1010, Call frame_B) # [] @ (1020, Call frame_C)
      # [(1050, Tick), (1100, Tick)]"
    by (simp add: burst_def)
  have two: "two_calls = [(1000, Call frame_A)] @ (1010, Call frame_B) # []"
    by (simp add: two_calls_def)
  have waiting: "frame_B \<notin> set (transmitted (run two_calls (boot 1000)))"
    using ne by (simp add: two_calls_run transmitted_def)
  note T = throttled_transport [OF asc dist]
  note order = T [THEN conjunct1]
  from T [THEN conjunct2, THEN conjunct1]
  have after: "\<exists>x. (x, frame_C) \<in> set (calls_of burst) \<and> x \<le> 1050"
    unfolding w by simp
  have close: "fst (calls_of burst ! 2) < fst (calls_of burst ! 0) + 50"
    by (simp add: calls)
  have "(1000, snd (calls_of burst ! 0)) \<in> set (wire (run burst (boot 1000)))"
    and "(1050, snd (calls_of burst ! 2)) \<in> set (wire (run burst (boot 1000)))"
    unfolding w by (simp_all add: calls)
  with close have apart: "(1000::nat) + 50 \<le> 1050"
    by (intro T [THEN conjunct2, THEN conjunct2, THEN conjunct1, rule_format, of 0 2 1000 1050])
      (simp add: calls)
  have dropped: "frame_B \<notin> set (transmitted (run burst (boot 1000)))"
    using split waiting unfolding two
    by (intro T [THEN conjunct2, THEN conjunct2, THEN conjunct2, THEN conjunct1, rule_format,
          of "[(1000, Call frame_A)]" 1010 frame_B "[]" 1020 frame_C "[(1050, Tick), (1100, Tick)]"])
      simp
  have tr: "transmitted (run burst (boot 1000)) = [frame_A, frame_C]"
    by (simp add: transmitted_def w)
  have c3: "map snd (calls_of burst) = [frame_A, frame_B, frame_C]" by (simp add: calls)
  have asc2: "ascending 1000 two_calls" "ascending 1000 (two_calls @ [(1050, Tick)])"
    "ascending 1000 (two_calls @ [(1030, Tick)])" "ascending 1000 [(1000, Call frame_A)]"
    by (simp_all add: two_calls_def)
  have calls2: "calls_of two_calls = [(1000, frame_A), (1010, frame_B)]"
    "calls_of (two_calls @ [(1050, Tick)]) = [(1000, frame_A), (1010, frame_B)]"
    "calls_of (two_calls @ [(1030, Tick)]) = [(1000, frame_A), (1010, frame_B)]"
    by (simp_all add: two_calls_def)
  have dist2: "distinct (map snd (calls_of two_calls))"
    "distinct (map snd (calls_of (two_calls @ [(1050, Tick)])))"
    "distinct (map snd (calls_of (two_calls @ [(1030, Tick)])))"
    "distinct (map snd (calls_of [(1000, Call frame_A)]))"
    unfolding calls2 using ne by simp_all
  have pend: "lastArgs (throttled (run two_calls (boot 1000))) = Some frame_B"
    and timer: "timerId (throttled (run two_calls (boot 1000))) = Some 1050"
    by (simp_all add: two_calls_run)
  from throttled_transport [OF asc2(1) dist2(1), THEN conjunct2, THEN conjunct2, THEN conjunct2,
      THEN conjunct2, THEN conjunct1, rule_format, OF pend]
  have due: "(1050::nat) \<le> 1010 + 50"
    by (simp add: timer calls2)
  have fired: "wire (run (two_calls @ [(1050, Tick)]) (boot 1000))
      = wire (run two_calls (boot 1000)) @ [(1050, frame_B)]"
    using pend timer
    by (intro throttled_transport [OF asc2(2) dist2(2), THEN conjunct2, THEN conjunct2,
          THEN conjunct2, THEN conjunct2, THEN conjunct2, THEN conjunct1, rule_format,
          of two_calls 1050 frame_B 1050])
      simp
  from throttled_transport [OF asc2(4) dist2(4), THEN conjunct2, THEN conjunct2, THEN conjunct2,
      THEN conjunct2, THEN conjunct2, THEN conjunct2, THEN conjunct1, rule_format,
      of "[]" 1000 frame_A]
  have first: "wire (run [(1000, Call frame_A)] (boot 1000)) = [(1000, frame_A)]"
    "lastArgs (throttled (run [(1000, Call frame_A)] (boot 1000))) = None"
    by (simp_all add: run_def boot_def)
  from throttled_transport [OF asc2(1) dist2(1), THEN conjunct2, THEN conjunct2, THEN conjunct2,
      THEN conjunct2, THEN conjunct2, THEN conjunct2, THEN conjunct1, rule_format,
      of "[(1000, Call frame_A)]" 1010 frame_B]
  have second: "wire (run two_calls (boot 1000)) = [(1000, frame_A)]"
    by (simp add: two_calls_def first)
  have idle: "wire (run (two_calls @ [(1030, Tick)]) (boot 1000)) = wire (run two_calls (boot 1000))
      \<and> lastArgs (throttled (run (two_calls @ [(1030, Tick)]) (boot 1000)))
        = lastArgs (throttled (run two_calls (boot 1000)))"
    using timer
    by (intro throttled_transport [OF asc2(3) dist2(3), THEN conjunct2, THEN conjunct2,
          THEN conjunct2, THEN conjunct2, THEN conjunct2, THEN conjunct2, THEN conjunct2,
          rule_format, of two_calls 1030])
      simp
  have asc3: "ascending 1000 interrupted" by (simp add: interrupted_def)
  have calls3: "calls_of interrupted = [(1000, frame_A), (1010, frame_B), (1040, frame_C)]"
    by (simp add: interrupted_def)
  have dist3: "distinct (map snd (calls_of interrupted))"
    unfolding calls3 using ne by simp
  have split3: "interrupted = [(1000, Call frame_A)] @ (1010, Call frame_B) # [(1030, Tick)]
      @ (1040, Call frame_C) # [(1050, Tick)]"
    by (simp add: interrupted_def)
  have pre3: "[(1000, Call frame_A)] @ (1010, Call frame_B) # [(1030, Tick)]
      = two_calls @ [(1030, Tick)]"
    by (simp add: two_calls_def)
  have still: "frame_B \<notin> set (transmitted (run ([(1000, Call frame_A)] @ (1010, Call frame_B)
      # [(1030, Tick)]) (boot 1000)))"
    unfolding pre3 transmitted_def using idle second ne by simp
  have dropped3: "frame_B \<notin> set (transmitted (run interrupted (boot 1000)))"
    using split3 still
    by (intro throttled_transport [OF asc3 dist3, THEN conjunct2, THEN conjunct2, THEN conjunct2,
          THEN conjunct1, rule_format,
          of "[(1000, Call frame_A)]" 1010 frame_B "[(1030, Tick)]" 1040 frame_C "[(1050, Tick)]"])
      simp
  show ?thesis
    using asc dist order after apart waiting dropped close asc2 dist2 pend timer due fired
      first second idle asc3 dist3 dropped3
    unfolding c3 by (simp add: tr w calls2 two_calls_run)
qed

end
